theory Spec2Isabelle
  imports
    Complex_Main
    "HOL-Library.Char_ord"
    "HOL-Library.List_Lexorder"
    "HOL-Library.Product_Lexorder"
begin

section \<open>The sustainability simulator and the subset enumerator of solve_ecosystem.py\<close>

text \<open>
  Python floats are read as real numbers. The first model of \<open>simulate_set\<close> computes
  exactly; the second rounds the result of every arithmetic operation, as the source's
  doubles do, and is the one that termination is proved of. Names are strings, ordered as
  Python orders them (character by character, a proper prefix first).
\<close>

subsection \<open>Data\<close>

record Species =
  name :: string
  typ' :: string
  cp0 :: real
  cn0 :: real
  foods :: "string list"

datatype error =
    KeyError
  | ValueError_producers nat
  | ValueError_animals nat
  | ValueError_negative_r

type_synonym pool = "string \<rightharpoonup> real"

text \<open>
  The working state of one call of \<open>simulate_set\<close>: the dictionaries \<open>cp\<close> and \<open>cn\<close>.
  The field \<open>writes\<close> is a history variable: it lists, in order, every value the feeding
  loop assigns to an entry of \<open>cp\<close>. No branch of the model reads it.
\<close>

record sim_state =
  cp :: pool
  cn :: pool
  writes :: "(string \<times> real) list"

text \<open>
  What a piece of the loop body does: raise, return from \<open>simulate_set\<close> with a verdict,
  or fall through with a value.
\<close>

datatype 'a flow = Raise error | Return bool sim_state | Continue 'a

definition default_eps :: real where
  "default_eps = 1 / 10 ^ 9"

subsection \<open>simulate\_set\<close>

text \<open>\<open>d.get(k, dflt)\<close>\<close>

definition get_or :: "pool \<Rightarrow> string \<Rightarrow> real \<Rightarrow> real" where
  "get_or d k dflt = (case d k of None \<Rightarrow> dflt | Some v \<Rightarrow> v)"

text \<open>
  \<open>{s: field(sp_map[s]) for s in keys}\<close>: a missing key raises KeyError, whatever the
  order in which the keys are visited.
\<close>

fun init_pool :: "(Species \<Rightarrow> real) \<Rightarrow> (string \<rightharpoonup> Species) \<Rightarrow> string list \<Rightarrow> error + pool" where
  "init_pool field sp_map [] = Inr Map.empty"
| "init_pool field sp_map (s # ss) =
     (case sp_map s of
        None \<Rightarrow> Inl KeyError
      | Some r \<Rightarrow>
          (case init_pool field sp_map ss of
             Inl e \<Rightarrow> Inl e
           | Inr m \<Rightarrow> Inr (m(s \<mapsto> field r))))"

text \<open>\<open>hungry = [a for a in animals if cn[a] > eps]\<close>\<close>

fun hungry_of :: "real \<Rightarrow> pool \<Rightarrow> string list \<Rightarrow> error + string list" where
  "hungry_of eps n [] = Inr []"
| "hungry_of eps n (a # as) =
     (case n a of
        None \<Rightarrow> Inl KeyError
      | Some v \<Rightarrow>
          (case hungry_of eps n as of
             Inl e \<Rightarrow> Inl e
           | Inr hs \<Rightarrow> Inr (if v > eps then a # hs else hs)))"

text \<open>
  \<open>max(hungry, key=lambda a: (cp.get(a, 0.0), a))\<close> on the non-empty list \<open>h # hs\<close>:
  Python's \<open>max\<close> keeps the first element whose key no later key exceeds, and compares
  the tuples lexicographically.
\<close>

definition eater_key :: "pool \<Rightarrow> string \<Rightarrow> real \<times> string" where
  "eater_key c a = (get_or c a 0, a)"

definition next_eater :: "pool \<Rightarrow> string \<Rightarrow> string list \<Rightarrow> string" where
  "next_eater c h hs = fold (\<lambda>a m. if eater_key c a > eater_key c m then a else m) hs h"

text \<open>\<open>available = [(f, cp.get(f, 0.0)) for f in allowed_foods if cp.get(f, 0.0) > eps]\<close>\<close>

definition available_of :: "real \<Rightarrow> pool \<Rightarrow> string list \<Rightarrow> (string \<times> real) list" where
  "available_of eps c allowed_foods =
     [(f, get_or c f 0). f \<leftarrow> allowed_foods, get_or c f 0 > eps]"

text \<open>\<open>top = [f for f, v in available if abs(v - max_cp) <= eps]\<close>\<close>

definition top_of :: "real \<Rightarrow> real \<Rightarrow> (string \<times> real) list \<Rightarrow> string list" where
  "top_of eps max_cp available = [f. (f, v) \<leftarrow> available, \<bar>v - max_cp\<bar> \<le> eps]"

text \<open>\<open>cp[f] for f in top\<close>: a subscript raises KeyError on a missing key.\<close>

fun subscript_all :: "pool \<Rightarrow> string list \<Rightarrow> error + real list" where
  "subscript_all c [] = Inr []"
| "subscript_all c (f # fs) =
     (case c f of
        None \<Rightarrow> Inl KeyError
      | Some v \<Rightarrow>
          (case subscript_all c fs of
             Inl e \<Rightarrow> Inl e
           | Inr vs \<Rightarrow> Inr (v # vs)))"

text \<open>
  The loop \<open>for f in top\<close>: subtract, then the two checks, in the source's order.
\<close>

fun feed_top :: "real \<Rightarrow> real \<Rightarrow> string list \<Rightarrow> sim_state \<Rightarrow> sim_state flow" where
  "feed_top eps take_each [] s = Continue s"
| "feed_top eps take_each (f # fs) s =
     (case cp s f of
        None \<Rightarrow> Raise KeyError
      | Some v \<Rightarrow>
          (let s' = s\<lparr>cp := (cp s)(f \<mapsto> v - take_each),
                      writes := writes s @ [(f, v - take_each)]\<rparr>
           in if v - take_each < - eps then Return False s'
              else if v - take_each \<le> eps then Return False s'
              else feed_top eps take_each fs s'))"

text \<open>
  One pass through the body of \<open>while need > eps\<close> (a feeding micro-step). It falls
  through with the new \<open>need\<close> and the new state.
\<close>

definition micro_step :: "real \<Rightarrow> string list \<Rightarrow> real \<Rightarrow> sim_state \<Rightarrow> (real \<times> sim_state) flow" where
  "micro_step eps allowed_foods need s =
     (let available = available_of eps (cp s) allowed_foods
      in if available = [] then Return False s
         else
           let max_cp = Max (set (map snd available));
               top = top_of eps max_cp available;
               k = length top
           in if k = 0 then Return False s
              else
                (case subscript_all (cp s) top of
                   Inl e \<Rightarrow> Raise e
                 | Inr vs \<Rightarrow>
                     let min_top_cp = Min (set vs);
                         max_total_take = real k * min_top_cp;
                         take_total = min need max_total_take;
                         take_each = take_total / real k
                     in (case feed_top eps take_each top s of
                           Raise e \<Rightarrow> Raise e
                         | Return b s' \<Rightarrow> Return b s'
                         | Continue s' \<Rightarrow> Continue (need - take_total, s'))))"

text \<open>
  \<open>while need > eps\<close>. Nothing in the text of the loop bounds its passes, so the
  result is optional: \<open>None\<close> stands for a loop that runs forever. That it never
  does is a theorem below.
\<close>

partial_function (option) eat :: "real \<Rightarrow> string list \<Rightarrow> real \<Rightarrow> sim_state \<Rightarrow> sim_state flow option" where
  "eat eps allowed_foods need s =
     (if need > eps then
        (case micro_step eps allowed_foods need s of
           Raise e \<Rightarrow> Some (Raise e)
         | Return b s' \<Rightarrow> Some (Return b s')
         | Continue (need', s') \<Rightarrow> eat eps allowed_foods need' s')
      else Some (Continue s))"

declare eat.simps [code]

text \<open>
  One pass through the body of \<open>while True\<close> (a turn): \<open>Return\<close> leaves
  \<open>simulate_set\<close>, \<open>Continue\<close> goes to the next pass.
\<close>

definition turn ::
  "real \<Rightarrow> (string \<rightharpoonup> Species) \<Rightarrow> string set \<Rightarrow> string list \<Rightarrow> sim_state
     \<Rightarrow> sim_state flow option" where
  "turn eps sp_map selected animals s =
     (case hungry_of eps (cn s) animals of
        Inl e \<Rightarrow> Some (Raise e)
      | Inr [] \<Rightarrow> Some (Return True s)
      | Inr (h # hs) \<Rightarrow>
          (let eater = next_eater (cp s) h hs
           in case cn s eater of
                None \<Rightarrow> Some (Raise KeyError)
              | Some need \<Rightarrow>
                  if need \<le> eps then Some (Continue (s\<lparr>cn := (cn s)(eater \<mapsto> 0)\<rparr>))
                  else
                    (case sp_map eater of
                       None \<Rightarrow> Some (Raise KeyError)
                     | Some sp \<Rightarrow>
                         (let allowed_foods = filter (\<lambda>f. f \<in> selected) (foods sp)
                          in if allowed_foods = [] then Some (Return False s)
                             else
                               (case eat eps allowed_foods need s of
                                  None \<Rightarrow> None
                                | Some (Raise e) \<Rightarrow> Some (Raise e)
                                | Some (Return b s') \<Rightarrow> Some (Return b s')
                                | Some (Continue s') \<Rightarrow>
                                    Some (Continue (s'\<lparr>cn := (cn s')(eater \<mapsto> 0)\<rparr>)))))))"

text \<open>\<open>while True\<close>\<close>

partial_function (option) turns ::
  "real \<Rightarrow> (string \<rightharpoonup> Species) \<Rightarrow> string set \<Rightarrow> string list \<Rightarrow> sim_state
     \<Rightarrow> (error + bool \<times> sim_state) option" where
  "turns eps sp_map selected animals s =
     (case turn eps sp_map selected animals s of
        None \<Rightarrow> None
      | Some (Raise e) \<Rightarrow> Some (Inl e)
      | Some (Return b s') \<Rightarrow> Some (Inr (b, s'))
      | Some (Continue s') \<Rightarrow> turns eps sp_map selected animals s')"

declare turns.simps [code]

text \<open>
  The whole call, with the final state kept beside the verdict; \<open>simulate_set\<close> is what
  the source returns.
\<close>

definition simulate_set_run ::
  "(string \<rightharpoonup> Species) \<Rightarrow> string list \<Rightarrow> string list \<Rightarrow> real
     \<Rightarrow> (error + bool \<times> sim_state) option" where
  "simulate_set_run sp_map producers animals eps =
     (let selected = set producers \<union> set animals
      in case init_pool cp0 sp_map (producers @ animals) of
           Inl e \<Rightarrow> Some (Inl e)
         | Inr c \<Rightarrow>
             (case init_pool cn0 sp_map animals of
                Inl e \<Rightarrow> Some (Inl e)
              | Inr n \<Rightarrow> turns eps sp_map selected animals \<lparr>cp = c, cn = n, writes = []\<rparr>))"

definition simulate_set ::
  "(string \<rightharpoonup> Species) \<Rightarrow> string list \<Rightarrow> string list \<Rightarrow> real \<Rightarrow> (error + bool) option" where
  "simulate_set sp_map producers animals eps =
     map_option (map_sum id fst) (simulate_set_run sp_map producers animals eps)"

subsection \<open>simulate\_set with rounded arithmetic\<close>

text \<open>
  Rounding to the nearest double, ties to even: \<open>round_double x\<close> is the multiple of
  \<open>2 ^ (e - 52)\<close> nearest to \<open>x\<close>, where \<open>2 ^ e \<le> |x| < 2 ^ (e + 1)\<close>. The range of
  the exponent is taken to have no bounds (no overflow, no underflow).
\<close>

definition round_half_even :: "real \<Rightarrow> int" where
  "round_half_even y =
     (let f = \<lfloor>y\<rfloor>
      in if y - of_int f < 1 / 2 then f
         else if 1 / 2 < y - of_int f then f + 1
         else if even f then f else f + 1)"

definition round_double :: "real \<Rightarrow> real" where
  "round_double x =
     (if x = 0 then 0
      else let q = 2 powr (of_int \<lfloor>log 2 \<bar>x\<bar>\<rfloor> - 52)
           in q * of_int (round_half_even (x / q)))"

text \<open>
  The functions of the simulator again, with the result of every floating-point
  operation of the source passed through \<open>rnd\<close>: the subtraction in
  \<open>abs(v - max_cp)\<close>, \<open>k * min_top_cp\<close>, \<open>take_total / k\<close>, \<open>cp[f] -= take_each\<close>
  and \<open>need -= take_total\<close>. Comparisons, \<open>abs\<close>, \<open>min\<close>, \<open>max\<close> and the conversion
  of \<open>k\<close> are exact. With \<open>round_double\<close> for \<open>rnd\<close> this is the arithmetic of the
  source; with the identity it is the exact model above.
\<close>

definition top_of_r :: "(real \<Rightarrow> real) \<Rightarrow> real \<Rightarrow> real \<Rightarrow> (string \<times> real) list \<Rightarrow> string list" where
  "top_of_r rnd eps max_cp available = [f. (f, v) \<leftarrow> available, \<bar>rnd (v - max_cp)\<bar> \<le> eps]"

fun feed_top_r ::
  "(real \<Rightarrow> real) \<Rightarrow> real \<Rightarrow> real \<Rightarrow> string list \<Rightarrow> sim_state \<Rightarrow> sim_state flow" where
  "feed_top_r rnd eps take_each [] s = Continue s"
| "feed_top_r rnd eps take_each (f # fs) s =
     (case cp s f of
        None \<Rightarrow> Raise KeyError
      | Some v \<Rightarrow>
          (let s' = s\<lparr>cp := (cp s)(f \<mapsto> rnd (v - take_each)),
                      writes := writes s @ [(f, rnd (v - take_each))]\<rparr>
           in if rnd (v - take_each) < - eps then Return False s'
              else if rnd (v - take_each) \<le> eps then Return False s'
              else feed_top_r rnd eps take_each fs s'))"

definition micro_step_r ::
  "(real \<Rightarrow> real) \<Rightarrow> real \<Rightarrow> string list \<Rightarrow> real \<Rightarrow> sim_state \<Rightarrow> (real \<times> sim_state) flow" where
  "micro_step_r rnd eps allowed_foods need s =
     (let available = available_of eps (cp s) allowed_foods
      in if available = [] then Return False s
         else
           let max_cp = Max (set (map snd available));
               top = top_of_r rnd eps max_cp available;
               k = length top
           in if k = 0 then Return False s
              else
                (case subscript_all (cp s) top of
                   Inl e \<Rightarrow> Raise e
                 | Inr vs \<Rightarrow>
                     let min_top_cp = Min (set vs);
                         max_total_take = rnd (real k * min_top_cp);
                         take_total = min need max_total_take;
                         take_each = rnd (take_total / real k)
                     in (case feed_top_r rnd eps take_each top s of
                           Raise e \<Rightarrow> Raise e
                         | Return b s' \<Rightarrow> Return b s'
                         | Continue s' \<Rightarrow> Continue (rnd (need - take_total), s'))))"

partial_function (option) eat_r ::
  "(real \<Rightarrow> real) \<Rightarrow> real \<Rightarrow> string list \<Rightarrow> real \<Rightarrow> sim_state \<Rightarrow> sim_state flow option" where
  "eat_r rnd eps allowed_foods need s =
     (if need > eps then
        (case micro_step_r rnd eps allowed_foods need s of
           Raise e \<Rightarrow> Some (Raise e)
         | Return b s' \<Rightarrow> Some (Return b s')
         | Continue (need', s') \<Rightarrow> eat_r rnd eps allowed_foods need' s')
      else Some (Continue s))"

declare eat_r.simps [code]

definition turn_r ::
  "(real \<Rightarrow> real) \<Rightarrow> real \<Rightarrow> (string \<rightharpoonup> Species) \<Rightarrow> string set \<Rightarrow> string list \<Rightarrow> sim_state
     \<Rightarrow> sim_state flow option" where
  "turn_r rnd eps sp_map selected animals s =
     (case hungry_of eps (cn s) animals of
        Inl e \<Rightarrow> Some (Raise e)
      | Inr [] \<Rightarrow> Some (Return True s)
      | Inr (h # hs) \<Rightarrow>
          (let eater = next_eater (cp s) h hs
           in case cn s eater of
                None \<Rightarrow> Some (Raise KeyError)
              | Some need \<Rightarrow>
                  if need \<le> eps then Some (Continue (s\<lparr>cn := (cn s)(eater \<mapsto> 0)\<rparr>))
                  else
                    (case sp_map eater of
                       None \<Rightarrow> Some (Raise KeyError)
                     | Some sp \<Rightarrow>
                         (let allowed_foods = filter (\<lambda>f. f \<in> selected) (foods sp)
                          in if allowed_foods = [] then Some (Return False s)
                             else
                               (case eat_r rnd eps allowed_foods need s of
                                  None \<Rightarrow> None
                                | Some (Raise e) \<Rightarrow> Some (Raise e)
                                | Some (Return b s') \<Rightarrow> Some (Return b s')
                                | Some (Continue s') \<Rightarrow>
                                    Some (Continue (s'\<lparr>cn := (cn s')(eater \<mapsto> 0)\<rparr>)))))))"

partial_function (option) turns_r ::
  "(real \<Rightarrow> real) \<Rightarrow> real \<Rightarrow> (string \<rightharpoonup> Species) \<Rightarrow> string set \<Rightarrow> string list \<Rightarrow> sim_state
     \<Rightarrow> (error + bool \<times> sim_state) option" where
  "turns_r rnd eps sp_map selected animals s =
     (case turn_r rnd eps sp_map selected animals s of
        None \<Rightarrow> None
      | Some (Raise e) \<Rightarrow> Some (Inl e)
      | Some (Return b s') \<Rightarrow> Some (Inr (b, s'))
      | Some (Continue s') \<Rightarrow> turns_r rnd eps sp_map selected animals s')"

declare turns_r.simps [code]

definition simulate_set_run_r ::
  "(real \<Rightarrow> real) \<Rightarrow> (string \<rightharpoonup> Species) \<Rightarrow> string list \<Rightarrow> string list \<Rightarrow> real
     \<Rightarrow> (error + bool \<times> sim_state) option" where
  "simulate_set_run_r rnd sp_map producers animals eps =
     (let selected = set producers \<union> set animals
      in case init_pool cp0 sp_map (producers @ animals) of
           Inl e \<Rightarrow> Some (Inl e)
         | Inr c \<Rightarrow>
             (case init_pool cn0 sp_map animals of
                Inl e \<Rightarrow> Some (Inl e)
              | Inr n \<Rightarrow> turns_r rnd eps sp_map selected animals \<lparr>cp = c, cn = n, writes = []\<rparr>))"

definition simulate_set_r ::
  "(real \<Rightarrow> real) \<Rightarrow> (string \<rightharpoonup> Species) \<Rightarrow> string list \<Rightarrow> string list \<Rightarrow> real
     \<Rightarrow> (error + bool) option" where
  "simulate_set_r rnd sp_map producers animals eps =
     map_option (map_sum id fst) (simulate_set_run_r rnd sp_map producers animals eps)"

subsection \<open>find\_sustainable\_sets\_for\_ecosystem\<close>

text \<open>\<open>sep.join(xs)\<close>\<close>

fun join :: "string \<Rightarrow> string list \<Rightarrow> string" where
  "join sep [] = []"
| "join sep [x] = x"
| "join sep (x # y # ys) = x @ sep @ join sep (y # ys)"

record result_row =
  Producers :: string
  Animals :: string
  AllSpecies :: string

definition make_row :: "string list \<Rightarrow> string list \<Rightarrow> result_row" where
  "make_row producers animal_set =
     \<lparr>Producers = join '', '' producers,
      Animals = join '', '' animal_set,
      AllSpecies = join '', '' (producers @ animal_set)\<rparr>"

text \<open>
  \<open>itertools.combinations(xs, r)\<close> for \<open>r \<ge> 0\<close>: the sub-sequences of length \<open>r\<close>, by
  position, in lexicographic order of the positions.
\<close>

fun combinations :: "'a list \<Rightarrow> nat \<Rightarrow> 'a list list" where
  "combinations xs 0 = [[]]"
| "combinations [] (Suc r) = []"
| "combinations (x # xs) (Suc r) = map ((#) x) (combinations xs r) @ combinations xs (Suc r)"

text \<open>
  The loop \<open>for animal_set in ...\<close>, over the combinations still to come. The list
  \<open>calls\<close> is a history variable: the arguments (producers, animals) of the calls of
  \<open>simulate_set\<close> made so far, in order. An exception of \<open>simulate_set\<close> leaves the
  loop.
\<close>

fun sweep ::
  "(string \<rightharpoonup> Species) \<Rightarrow> string list \<Rightarrow> int option \<Rightarrow> string list list
     \<Rightarrow> result_row list \<Rightarrow> (string list \<times> string list) list
     \<Rightarrow> ((string list \<times> string list) list \<times> (error + result_row list)) option" where
  "sweep sp_map producers cap_results [] results calls = Some (calls, Inr results)"
| "sweep sp_map producers cap_results (animal_set # rest) results calls =
     (case simulate_set sp_map producers animal_set default_eps of
        None \<Rightarrow> None
      | Some (Inl e) \<Rightarrow> Some (calls @ [(producers, animal_set)], Inl e)
      | Some (Inr ok) \<Rightarrow>
          if ok then
            (let results' = results @ [make_row producers animal_set]
             in case cap_results of
                  None \<Rightarrow>
                    sweep sp_map producers cap_results rest results'
                      (calls @ [(producers, animal_set)])
                | Some c \<Rightarrow>
                    if int (length results') \<ge> c
                    then Some (calls @ [(producers, animal_set)], Inr results')
                    else sweep sp_map producers cap_results rest results'
                           (calls @ [(producers, animal_set)]))
          else sweep sp_map producers cap_results rest results
                 (calls @ [(producers, animal_set)]))"

text \<open>
  The dictionary \<open>sp_map\<close> is the list of its items in insertion order (its keys are
  distinct); \<open>sp_map.values()\<close> is \<open>map snd\<close> of it and a subscript is \<open>map_of\<close>.
\<close>

definition producers_of :: "(string \<times> Species) list \<Rightarrow> string list" where
  "producers_of sp_map = [name s. s \<leftarrow> map snd sp_map, typ' s = ''Producer'']"

definition animals_all_of :: "(string \<times> Species) list \<Rightarrow> string list" where
  "animals_all_of sp_map = [name s. s \<leftarrow> map snd sp_map, typ' s = ''Animal'']"

text \<open>
  The function with the call log beside what the source returns or raises;
  \<open>itertools.combinations\<close> raises ValueError on a negative size.
\<close>

definition find_run ::
  "(string \<times> Species) list \<Rightarrow> int \<Rightarrow> int option
     \<Rightarrow> ((string list \<times> string list) list \<times> (error + result_row list)) option" where
  "find_run sp_map animals_to_choose cap_results =
     (let producers = producers_of sp_map;
          animals_all = animals_all_of sp_map
      in if length producers \<noteq> 3 then Some ([], Inl (ValueError_producers (length producers)))
         else if length animals_all \<noteq> 10 then Some ([], Inl (ValueError_animals (length animals_all)))
         else if animals_to_choose < 0 then Some ([], Inl ValueError_negative_r)
         else sweep (map_of sp_map) producers cap_results
                (combinations animals_all (nat animals_to_choose)) [] [])"

definition find_sustainable_sets_for_ecosystem ::
  "(string \<times> Species) list \<Rightarrow> int \<Rightarrow> int option \<Rightarrow> (error + result_row list) option" where
  "find_sustainable_sets_for_ecosystem sp_map animals_to_choose cap_results =
     map_option snd (find_run sp_map animals_to_choose cap_results)"

subsection \<open>Vocabulary of the properties\<close>

text \<open>
  The definitions below are not code of the program: they name what the theorems speak
  about. \<open>replay c ws\<close> is the dictionary \<open>c\<close> after the assignments \<open>ws\<close>, and
  \<open>ok_write eps v\<close> says that a value just written passes both checks of the feeding
  loop.
\<close>

definition replay :: "pool \<Rightarrow> (string \<times> real) list \<Rightarrow> pool" where
  "replay c ws = fold (\<lambda>w m. m(fst w \<mapsto> snd w)) ws c"

definition ok_write :: "real \<Rightarrow> real \<Rightarrow> bool" where
  "ok_write eps v = (eps < v \<and> - eps \<le> v)"

text \<open>
  The invariant of a running simulation that started with reserves \<open>c0\<close>: \<open>cp\<close> is \<open>c0\<close>
  after the logged writes, each of which passed the checks. At a return, the last write may
  have failed them, and has not when the verdict is pass.
\<close>

definition log_inv :: "real \<Rightarrow> pool \<Rightarrow> sim_state \<Rightarrow> bool" where
  "log_inv eps c0 s = (cp s = replay c0 (writes s) \<and> list_all (\<lambda>w. ok_write eps (snd w)) (writes s))"

definition log_post :: "real \<Rightarrow> pool \<Rightarrow> bool \<Rightarrow> sim_state \<Rightarrow> bool" where
  "log_post eps c0 b s =
     (cp s = replay c0 (writes s)
      \<and> list_all (\<lambda>w. ok_write eps (snd w)) (butlast (writes s))
      \<and> (b \<longrightarrow> list_all (\<lambda>w. ok_write eps (snd w)) (writes s)))"

text \<open>
  A feeding micro-step in the words of the specification: the available foods, the top
  set (the available foods within \<open>eps\<close> of the largest available reserve, one entry per
  entry of the allowed-foods list), and the take \<open>min(need, |top| * minTopCP)\<close>.
\<close>

definition step_avail :: "real \<Rightarrow> pool \<Rightarrow> string list \<Rightarrow> string list" where
  "step_avail eps c allowed = filter (\<lambda>f. eps < get_or c f 0) allowed"

definition step_top :: "real \<Rightarrow> pool \<Rightarrow> string list \<Rightarrow> string list" where
  "step_top eps c allowed =
     filter (\<lambda>f. \<bar>get_or c f 0 - Max ((\<lambda>f. get_or c f 0) ` set (step_avail eps c allowed))\<bar> \<le> eps)
       (step_avail eps c allowed)"

definition step_take :: "real \<Rightarrow> pool \<Rightarrow> string list \<Rightarrow> real \<Rightarrow> real" where
  "step_take eps c allowed need =
     min need (real (length (step_top eps c allowed))
                * Min ((\<lambda>f. get_or c f 0) ` set (step_top eps c allowed)))"

text \<open>
  The state in which the first turn starts when no subscript of \<open>sp_map\<close> fails, and the
  number of hungry entries of \<open>animals\<close>, which measures the turns still to come.
\<close>

definition pool_of :: "(Species \<Rightarrow> real) \<Rightarrow> (string \<rightharpoonup> Species) \<Rightarrow> string list \<Rightarrow> pool" where
  "pool_of field sp_map keys = (\<lambda>x. if x \<in> set keys then map_option field (sp_map x) else None)"

definition start_state :: "(string \<rightharpoonup> Species) \<Rightarrow> string list \<Rightarrow> string list \<Rightarrow> sim_state" where
  "start_state sp_map producers animals =
     \<lparr>cp = pool_of cp0 sp_map (producers @ animals), cn = pool_of cn0 sp_map animals, writes = []\<rparr>"

definition hungry_count :: "real \<Rightarrow> string list \<Rightarrow> sim_state \<Rightarrow> nat" where
  "hungry_count eps animals s = length (filter (\<lambda>a. eps < the (cn s a)) animals)"

text \<open>
  \<open>passes\<close>: the simulator, called as the enumerator calls it, returns True.
  \<open>keys_are_names\<close>: every species is stored under its own name, as \<open>load_ecosystems\<close>
  stores it.
\<close>

definition passes :: "(string \<rightharpoonup> Species) \<Rightarrow> string list \<Rightarrow> string list \<Rightarrow> bool" where
  "passes sp_map producers animal_set =
     (simulate_set sp_map producers animal_set default_eps = Some (Inr True))"

definition keys_are_names :: "(string \<times> Species) list \<Rightarrow> bool" where
  "keys_are_names sp_map = list_all (\<lambda>(k, s). name s = k) sp_map"

text \<open>
  What a call leaves behind when it returns a verdict: the reserve of a species and the
  log of the writes.
\<close>

definition final_reserve ::
  "(string \<rightharpoonup> Species) \<Rightarrow> string list \<Rightarrow> string list \<Rightarrow> real \<Rightarrow> string \<Rightarrow> real option" where
  "final_reserve sp_map producers animals eps x =
     (case simulate_set_run sp_map producers animals eps of
        Some (Inr (b, s)) \<Rightarrow> cp s x
      | _ \<Rightarrow> None)"

definition run_writes ::
  "(string \<rightharpoonup> Species) \<Rightarrow> string list \<Rightarrow> string list \<Rightarrow> real \<Rightarrow> (string \<times> real) list" where
  "run_writes sp_map producers animals eps =
     (case simulate_set_run sp_map producers animals eps of
        Some (Inr (b, s)) \<Rightarrow> writes s
      | _ \<Rightarrow> [])"

text \<open>
  What is asked of a rounding function: a relative error of at most 1/8. Rounding to
  the nearest double has a relative error of at most \<open>2^-53\<close>.
\<close>

definition small_error :: "(real \<Rightarrow> real) \<Rightarrow> bool" where
  "small_error rnd = (\<forall>x. \<bar>rnd x - x\<bar> \<le> \<bar>x\<bar> / 8)"

text \<open>
  The measure of the inner loop under rounding: the sum of the reserves of the allowed
  foods, a negative reserve counting as 0.
\<close>

definition pool_mass :: "string list \<Rightarrow> pool \<Rightarrow> real" where
  "pool_mass allowed c = (\<Sum>f\<in>set allowed. max 0 (get_or c f 0))"

subsection \<open>Example ecosystems\<close>

definition producer :: "string \<Rightarrow> real \<Rightarrow> string \<times> Species" where
  "producer nm c = (nm, \<lparr>name = nm, typ' = ''Producer'', cp0 = c, cn0 = 0, foods = []\<rparr>)"

definition animal :: "string \<Rightarrow> real \<Rightarrow> real \<Rightarrow> string list \<Rightarrow> string \<times> Species" where
  "animal nm c n fs = (nm, \<lparr>name = nm, typ' = ''Animal'', cp0 = c, cn0 = n, foods = fs\<rparr>)"

text \<open>
  Three producers with a reserve of 100 and ten animals; only A01 is hungry, it needs
  \<open>n\<close> and eats P1.
\<close>

definition eco_one_eater :: "real \<Rightarrow> (string \<times> Species) list" where
  "eco_one_eater n =
     [producer ''P1'' 100, producer ''P2'' 100, producer ''P3'' 100,
      animal ''A01'' 10 n [''P1''], animal ''A02'' 10 0 [''P1''], animal ''A03'' 10 0 [''P1''],
      animal ''A04'' 10 0 [''P1''], animal ''A05'' 10 0 [''P1''], animal ''A06'' 10 0 [''P1''],
      animal ''A07'' 10 0 [''P1''], animal ''A08'' 10 0 [''P1''], animal ''A09'' 10 0 [''P1''],
      animal ''A10'' 10 0 [''P1'']]"

text \<open>An ecosystem with two producers and one animal.\<close>

definition eco_too_small :: "(string \<times> Species) list" where
  "eco_too_small = [producer ''P1'' 100, producer ''P2'' 100, animal ''A01'' 10 0 [''P1'']]"

text \<open>
  A producer and an animal with an empty reserve that nobody eats: P3 and A01.
\<close>

definition eco_idle_zero :: "(string \<times> Species) list" where
  "eco_idle_zero =
     [producer ''P1'' 100, producer ''P2'' 100, producer ''P3'' 0, animal ''A01'' 0 50 [''P1'']]"

text \<open>
  Two hungry animals with the same reserve of 5: A1 needs 4 and eats P1, A2 needs 7 and
  eats P1 or P2.
\<close>

definition eco_tie :: "(string \<times> Species) list" where
  "eco_tie =
     [producer ''P1'' 10, producer ''P2'' 8, producer ''P3'' 1,
      animal ''A1'' 5 4 [''P1''], animal ''A2'' 5 7 [''P1'', ''P2'']]"

text \<open>An animal whose only food is a species that is not selected.\<close>

definition eco_stranger :: "(string \<times> Species) list" where
  "eco_stranger =
     [producer ''P1'' 100, producer ''P2'' 100, producer ''P3'' 100,
      animal ''A01'' 10 5 [''A02''], animal ''A02'' 10 0 [''P1'']]"


text \<open>
  Three producers with the same reserve, the double \<open>12582912 + 6 * 2^-29\<close>
  (12582912.000000011), and one animal that eats all three and needs the double
  \<open>2^100\<close>; \<open>crowd_state\<close> is the state in which \<open>simulate_set\<close> starts on them.
\<close>

definition eco_crowd :: "(string \<times> Species) list" where
  "eco_crowd =
     [producer ''F1'' (12582912 + 6 / 2 ^ 29), producer ''F2'' (12582912 + 6 / 2 ^ 29),
      producer ''F3'' (12582912 + 6 / 2 ^ 29), animal ''A1'' 0 (2 ^ 100) [''F1'', ''F2'', ''F3'']]"

definition crowd_state :: sim_state where
  "crowd_state = start_state (map_of eco_crowd) [''F1'', ''F2'', ''F3''] [''A1'']"

subsection \<open>The feeding loop and the choice of the eater\<close>

lemma init_pool_ok:
  "set xs \<subseteq> dom sp \<Longrightarrow>
   init_pool f sp xs = Inr (\<lambda>x. if x \<in> set xs then map_option f (sp x) else None)"
  by (induction xs) (auto simp: fun_eq_iff)

lemma init_pool_missing: "x \<in> set xs \<Longrightarrow> sp x = None \<Longrightarrow> init_pool f sp xs = Inl KeyError"
  by (induction xs) (auto split: option.splits sum.splits)

lemma init_pool_err: "\<not> set xs \<subseteq> dom sp \<Longrightarrow> init_pool f sp xs = Inl KeyError"
  using init_pool_missing by (metis domIff subsetI)

lemma hungry_of_ok:
  "set as \<subseteq> dom n \<Longrightarrow> hungry_of eps n as = Inr (filter (\<lambda>a. eps < the (n a)) as)"
  by (induction as) auto

lemma next_eater_fold_mem:
  "fold (\<lambda>a m. if k a > k m then a else m) hs h \<in> set (h # hs)"
proof (induction hs arbitrary: h)
  case Nil
  then show ?case by simp
next
  case (Cons x xs)
  show ?case
    using Cons.IH [of "if k x > k h then x else h"] by (auto split: if_splits)
qed

lemma next_eater_fold_ge:
  fixes k :: "'a \<Rightarrow> 'b::linorder"
  shows "a \<in> set (h # hs) \<Longrightarrow> k a \<le> k (fold (\<lambda>a m. if k a > k m then a else m) hs h)"
proof (induction hs arbitrary: h a)
  case Nil
  then show ?case by simp
next
  case (Cons x xs)
  have mono: "k h' \<le> k (fold (\<lambda>a m. if k a > k m then a else m) xs h')" for h'
    using Cons.IH [of h' h'] by simp
  show ?case
  proof (cases "a \<in> set xs")
    case True
    then show ?thesis using Cons.IH by simp
  next
    case False
    with Cons.prems have "a = h \<or> a = x" by auto
    then show ?thesis
      using mono [of x] mono [of h] by (auto simp: not_less intro: order_trans)
  qed
qed

lemma next_eater_mem: "next_eater c h hs \<in> set (h # hs)"
  unfolding next_eater_def by (rule next_eater_fold_mem)

lemma next_eater_ge: "a \<in> set (h # hs) \<Longrightarrow> eater_key c a \<le> eater_key c (next_eater c h hs)"
  unfolding next_eater_def by (rule next_eater_fold_ge)

lemma replay_snoc: "replay c (ws @ [w]) = (replay c ws)(fst w \<mapsto> snd w)"
  by (simp add: replay_def)

lemma feed_top_cn:
  "feed_top eps te tops s = Continue s' \<Longrightarrow> cn s' = cn s"
  "feed_top eps te tops s = Return b s' \<Longrightarrow> cn s' = cn s"
  by (induction tops arbitrary: s; auto simp: Let_def split: option.splits if_splits)+

lemma feed_top_Return: "feed_top eps te tops s = Return b s' \<Longrightarrow> \<not> b"
  by (induction tops arbitrary: s) (auto simp: Let_def split: option.splits if_splits)

lemma feed_top_inv_Continue:
  "log_inv eps c0 s \<Longrightarrow> feed_top eps te tops s = Continue s' \<Longrightarrow> log_inv eps c0 s'"
proof (induction tops arbitrary: s)
  case Nil
  then show ?case by simp
next
  case (Cons f fs)
  from Cons.prems(2) obtain v where v: "cp s f = Some v"
    by (auto split: option.splits)
  let ?s1 = "s\<lparr>cp := (cp s)(f \<mapsto> v - te), writes := writes s @ [(f, v - te)]\<rparr>"
  from Cons.prems(2) v have ok: "ok_write eps (v - te)" and rest: "feed_top eps te fs ?s1 = Continue s'"
    by (auto simp: Let_def ok_write_def split: if_splits)
  have "log_inv eps c0 ?s1"
    using Cons.prems(1) ok by (simp add: log_inv_def replay_snoc)
  then show ?case using Cons.IH rest by blast
qed

lemma feed_top_inv_Return:
  "log_inv eps c0 s \<Longrightarrow> feed_top eps te tops s = Return b s' \<Longrightarrow> log_post eps c0 False s'"
proof (induction tops arbitrary: s)
  case Nil
  then show ?case by simp
next
  case (Cons f fs)
  from Cons.prems(2) obtain v where v: "cp s f = Some v"
    by (auto split: option.splits)
  let ?s1 = "s\<lparr>cp := (cp s)(f \<mapsto> v - te), writes := writes s @ [(f, v - te)]\<rparr>"
  show ?case
  proof (cases "ok_write eps (v - te)")
    case True
    with Cons.prems(2) v have rest: "feed_top eps te fs ?s1 = Return b s'"
      by (auto simp: Let_def ok_write_def split: if_splits)
    have "log_inv eps c0 ?s1"
      using Cons.prems(1) True by (simp add: log_inv_def replay_snoc)
    then show ?thesis using Cons.IH rest by blast
  next
    case False
    with Cons.prems(2) v have "s' = ?s1"
      by (auto simp: Let_def ok_write_def split: if_splits)
    then show ?thesis
      using Cons.prems(1) by (simp add: log_inv_def log_post_def replay_snoc)
  qed
qed

lemma feed_top_first_visit:
  "feed_top eps te tops s = Continue s' \<Longrightarrow> f \<in> set tops \<Longrightarrow> \<exists>v. cp s f = Some v \<and> eps < v - te"
proof (induction tops arbitrary: s)
  case Nil
  then show ?case by simp
next
  case (Cons g gs)
  from Cons.prems(1) obtain v where v: "cp s g = Some v"
    by (auto split: option.splits)
  let ?s1 = "s\<lparr>cp := (cp s)(g \<mapsto> v - te), writes := writes s @ [(g, v - te)]\<rparr>"
  from Cons.prems(1) v have ok: "eps < v - te" and rest: "feed_top eps te gs ?s1 = Continue s'"
    by (auto simp: Let_def split: if_splits)
  show ?case
  proof (cases "f = g")
    case True
    then show ?thesis using v ok by simp
  next
    case False
    with Cons.prems(2) have "f \<in> set gs" by simp
    from Cons.IH [OF rest this] False show ?thesis by simp
  qed
qed


subsection \<open>Micro-steps and the inner loop\<close>

lemma log_inv_post: "log_inv eps c0 s \<Longrightarrow> log_post eps c0 b s"
  by (auto simp: log_inv_def log_post_def list_all_iff dest: in_set_butlastD)

lemma hungry_of_Inr:
  "hungry_of eps n as = Inr hs \<Longrightarrow> set as \<subseteq> dom n \<and> hs = filter (\<lambda>a. eps < the (n a)) as"
  by (induction as arbitrary: hs) (auto split: option.splits sum.splits if_splits)

lemma subscript_all_ok:
  "set fs \<subseteq> dom c \<Longrightarrow> subscript_all c fs = Inr (map (\<lambda>f. get_or c f 0) fs)"
  by (induction fs) (auto simp: get_or_def)

lemma available_of_fst:
  "map fst (available_of eps c allowed) = filter (\<lambda>f. eps < get_or c f 0) allowed"
  unfolding available_of_def by (induction allowed) auto

lemma available_of_snd:
  "map snd (available_of eps c allowed) = map (\<lambda>f. get_or c f 0) (filter (\<lambda>f. eps < get_or c f 0) allowed)"
  unfolding available_of_def by (induction allowed) auto

lemma available_of_Nil:
  "available_of eps c allowed = [] \<longleftrightarrow> filter (\<lambda>f. eps < get_or c f 0) allowed = []"
  using available_of_fst [of eps c allowed] by (metis map_is_Nil_conv)

lemma top_of_available:
  "top_of eps M (available_of eps c allowed) =
     filter (\<lambda>f. \<bar>get_or c f 0 - M\<bar> \<le> eps) (filter (\<lambda>f. eps < get_or c f 0) allowed)"
  unfolding top_of_def available_of_def by (induction allowed) auto

lemma feed_top_no_raise:
  "set tops \<subseteq> dom (cp s) \<Longrightarrow> feed_top eps te tops s \<noteq> Raise e"
proof (induction tops arbitrary: s)
  case Nil
  then show ?case by simp
next
  case (Cons g gs)
  then obtain v where v: "cp s g = Some v" by auto
  let ?s1 = "s\<lparr>cp := (cp s)(g \<mapsto> v - te), writes := writes s @ [(g, v - te)]\<rparr>"
  have "set gs \<subseteq> dom (cp ?s1)" using Cons.prems by auto
  from Cons.IH [OF this] v show ?case by (simp add: Let_def)
qed

lemma step_top_subset: "set (step_top eps c allowed) \<subseteq> set (step_avail eps c allowed)"
  by (auto simp: step_top_def)

lemma step_avail_dom: "0 \<le> eps \<Longrightarrow> set (step_avail eps c allowed) \<subseteq> dom c"
  by (auto simp: step_avail_def get_or_def split: option.splits)

lemma step_top_dom: "0 \<le> eps \<Longrightarrow> set (step_top eps c allowed) \<subseteq> dom c"
  using step_top_subset step_avail_dom by blast

lemma step_top_nonempty:
  assumes "0 \<le> eps" "step_avail eps c allowed \<noteq> []"
  shows "step_top eps c allowed \<noteq> []"
proof -
  let ?V = "(\<lambda>f. get_or c f 0) ` set (step_avail eps c allowed)"
  have "finite ?V" "?V \<noteq> {}" using assms by auto
  then have "Max ?V \<in> ?V" by (rule Max_in)
  then obtain f where f: "f \<in> set (step_avail eps c allowed)" "get_or c f 0 = Max ?V" by auto
  then have "f \<in> set (step_top eps c allowed)" using assms(1) by (simp add: step_top_def)
  then show ?thesis by auto
qed

lemma micro_step_unfold:
  assumes "0 \<le> eps"
  shows "micro_step eps allowed need s =
    (if step_avail eps (cp s) allowed = [] then Return False s
     else case feed_top eps (step_take eps (cp s) allowed need / real (length (step_top eps (cp s) allowed)))
                 (step_top eps (cp s) allowed) s of
            Raise e \<Rightarrow> Raise e
          | Return b s' \<Rightarrow> Return b s'
          | Continue s' \<Rightarrow> Continue (need - step_take eps (cp s) allowed need, s'))"
proof (cases "step_avail eps (cp s) allowed = []")
  case True
  then show ?thesis by (simp add: micro_step_def available_of_Nil step_avail_def)
next
  case False
  have top: "top_of eps (Max (set (map snd (available_of eps (cp s) allowed)))) (available_of eps (cp s) allowed)
     = step_top eps (cp s) allowed"
    by (simp add: top_of_available available_of_snd step_top_def step_avail_def)
  have ne: "step_top eps (cp s) allowed \<noteq> []"
    using step_top_nonempty [OF assms False] .
  have sub: "subscript_all (cp s) (step_top eps (cp s) allowed)
      = Inr (map (\<lambda>f. get_or (cp s) f 0) (step_top eps (cp s) allowed))"
    using subscript_all_ok step_top_dom [OF assms] by blast
  show ?thesis
    unfolding micro_step_def Let_def top sub
    using False ne
    by (simp add: available_of_Nil step_take_def cong: flow.case_cong flip: step_avail_def)
qed

lemma micro_step_no_raise:
  assumes "0 \<le> eps"
  shows "micro_step eps allowed need s \<noteq> Raise e"
proof -
  have "set (step_top eps (cp s) allowed) \<subseteq> dom (cp s)"
    using step_top_dom [OF assms] .
  from feed_top_no_raise [OF this] show ?thesis
    by (auto simp: micro_step_unfold [OF assms] split: flow.splits)
qed

lemma micro_step_Continue_need:
  assumes "0 \<le> eps" and st: "micro_step eps allowed need s = Continue (need', s')"
  shows "need' = 0"
proof -
  let ?T = "step_top eps (cp s) allowed"
  let ?take = "step_take eps (cp s) allowed need"
  from st have av: "step_avail eps (cp s) allowed \<noteq> []"
    by (auto simp: micro_step_unfold [OF assms(1)] split: if_splits)
  with st have ft: "feed_top eps (?take / real (length ?T)) ?T s = Continue s'"
    and n': "need' = need - ?take"
    by (auto simp: micro_step_unfold [OF assms(1)] split: flow.splits)
  have ne: "?T \<noteq> []" using step_top_nonempty [OF assms(1) av] .
  let ?V = "(\<lambda>f. get_or (cp s) f 0) ` set ?T"
  have "Min ?V \<in> ?V" using ne by (intro Min_in) auto
  then obtain f where f: "f \<in> set ?T" "get_or (cp s) f 0 = Min ?V" by auto
  from feed_top_first_visit [OF ft f(1)] obtain v where
    v: "cp s f = Some v" "eps < v - ?take / real (length ?T)" by auto
  have vm: "v = Min ?V" using v(1) f(2) by (simp add: get_or_def)
  have k: "0 < real (length ?T)" using ne by simp
  have "?take = need"
  proof (rule ccontr)
    assume "?take \<noteq> need"
    then have "?take = real (length ?T) * Min ?V" by (auto simp: step_take_def min_def split: if_splits)
    then have "?take / real (length ?T) = v" using k vm by simp
    with v(2) assms(1) show False by simp
  qed
  with n' show ?thesis by simp
qed

lemma micro_step_inv:
  assumes "log_inv eps c0 s"
  shows "micro_step eps allowed need s = Continue (need', s') \<Longrightarrow> log_inv eps c0 s' \<and> cn s' = cn s"
    and "micro_step eps allowed need s = Return b s' \<Longrightarrow> log_post eps c0 False s' \<and> \<not> b \<and> cn s' = cn s"
  using assms
  by (auto simp: micro_step_def Let_def log_inv_post feed_top_cn
      dest: feed_top_inv_Continue feed_top_inv_Return feed_top_Return
      split: if_splits sum.splits flow.splits)

lemma micro_step_cn:
  shows "micro_step eps allowed need s = Continue (need', s') \<Longrightarrow> cn s' = cn s"
    and "micro_step eps allowed need s = Return b s' \<Longrightarrow> \<not> b \<and> cn s' = cn s"
  by (auto simp: micro_step_def Let_def feed_top_cn dest: feed_top_Return
      split: if_splits sum.splits flow.splits)

lemma eat_cn:
  assumes "eat eps allowed need s = Some r"
  shows "case r of Raise e \<Rightarrow> True
         | Return b s' \<Rightarrow> \<not> b \<and> cn s' = cn s
         | Continue s' \<Rightarrow> cn s' = cn s"
  using assms
proof (induction eps allowed need s r rule: eat.raw_induct [rotated 1, consumes 1])
  case (1 eat eps allowed need s r)
  show ?case
  proof (cases "eps < need")
    case False
    with 1 show ?thesis by auto
  next
    case True
    show ?thesis
    proof (cases "micro_step eps allowed need s")
      case (Raise e)
      with 1 True show ?thesis by auto
    next
      case (Return b s')
      with 1 True micro_step_cn(2) [of eps allowed need s b s'] show ?thesis by auto
    next
      case (Continue p)
      obtain n' s' where p: "p = (n', s')" by (cases p)
      from micro_step_cn(1) [of eps allowed need s n' s'] Continue p
      have cn': "cn s' = cn s" by auto
      from 1(2) True Continue p have "eat eps allowed n' s' = Some r" by simp
      from 1(1) [OF this] cn' show ?thesis by (auto split: flow.splits)
    qed
  qed
qed

lemma eat_inv:
  assumes "eat eps allowed need s = Some r" "log_inv eps c0 s"
  shows "case r of Raise e \<Rightarrow> True
         | Return b s' \<Rightarrow> log_post eps c0 False s' \<and> \<not> b \<and> cn s' = cn s
         | Continue s' \<Rightarrow> log_inv eps c0 s' \<and> cn s' = cn s"
  using assms
proof (induction eps allowed need s r rule: eat.raw_induct [rotated 1, consumes 1])
  case (1 eat eps allowed need s r)
  show ?case
  proof (cases "eps < need")
    case False
    with 1 show ?thesis by auto
  next
    case True
    show ?thesis
    proof (cases "micro_step eps allowed need s")
      case (Raise e)
      with 1 True show ?thesis by auto
    next
      case (Return b s')
      with 1 True micro_step_inv(2) [OF "1.prems", of allowed need b s'] show ?thesis by auto
    next
      case (Continue p)
      obtain n' s' where p: "p = (n', s')" by (cases p)
      from micro_step_inv(1) [OF "1.prems", of allowed need n' s'] Continue p
      have inv': "log_inv eps c0 s'" "cn s' = cn s" by auto
      from 1(2) True Continue p have "eat eps allowed n' s' = Some r" by simp
      from 1(1) [OF this inv'(1)] inv'(2) show ?thesis by (auto split: flow.splits)
    qed
  qed
qed

lemma eat_total:
  assumes "0 \<le> eps"
  shows "\<exists>r. eat eps allowed need s = Some r \<and> (\<forall>e. r \<noteq> Raise e)"
proof (cases "eps < need")
  case False
  then show ?thesis by (subst eat.simps) simp
next
  case True
  show ?thesis
  proof (cases "micro_step eps allowed need s")
    case (Raise e)
    with micro_step_no_raise [OF assms] show ?thesis by blast
  next
    case (Return b s')
    with True show ?thesis by (subst eat.simps) simp
  next
    case (Continue p)
    obtain n' s' where p: "p = (n', s')" by (cases p)
    with Continue micro_step_Continue_need [OF assms] have "n' = 0" by blast
    then have "eat eps allowed n' s' = Some (Continue s')"
      using assms by (subst eat.simps) simp
    with True Continue p show ?thesis by (subst eat.simps) simp
  qed
qed

subsection \<open>Turns and termination\<close>

lemma simulate_set_run_ok:
  assumes "set producers \<union> set animals \<subseteq> dom sp"
  shows "simulate_set_run sp producers animals eps =
         turns eps sp (set producers \<union> set animals) animals (start_state sp producers animals)"
proof -
  have a: "set (producers @ animals) \<subseteq> dom sp" and b: "set animals \<subseteq> dom sp"
    using assms by auto
  show ?thesis
    unfolding simulate_set_run_def Let_def init_pool_ok [OF a] init_pool_ok [OF b]
    by (simp add: start_state_def pool_of_def)
qed

lemma simulate_set_run_err:
  assumes "\<not> set producers \<union> set animals \<subseteq> dom sp"
  shows "simulate_set_run sp producers animals eps = Some (Inl KeyError)"
proof (cases "set (producers @ animals) \<subseteq> dom sp")
  case False
  then show ?thesis
    by (simp add: simulate_set_run_def init_pool_err del: set_append)
next
  case True
  with assms show ?thesis by auto
qed

lemma start_state_inv: "log_inv eps (cp (start_state sp producers animals)) (start_state sp producers animals)"
  by (simp add: log_inv_def start_state_def replay_def)

lemma log_inv_cn_update [simp]: "log_inv eps c0 (s\<lparr>cn := n\<rparr>) = log_inv eps c0 s"
  by (simp add: log_inv_def)

lemma turn_inv:
  assumes "turn eps sp selected animals s = Some r" "log_inv eps c0 s"
  shows "case r of Raise e \<Rightarrow> True
         | Return b s' \<Rightarrow> log_post eps c0 b s'
         | Continue s' \<Rightarrow> log_inv eps c0 s'"
proof -
  have eat: "eat eps allowed need s = Some r' \<Longrightarrow>
       (case r' of Raise e \<Rightarrow> True | Return b s' \<Rightarrow> log_post eps c0 b s'
          | Continue s' \<Rightarrow> log_inv eps c0 s')" for allowed need r'
    using eat_inv [OF _ assms(2), of allowed need r'] feed_top_Return
    by (cases r') (auto simp: log_post_def)
  show ?thesis
    using assms
    by (auto simp: turn_def Let_def log_inv_post
        split: sum.splits list.splits option.splits if_splits flow.splits dest: eat)
qed

lemma turns_inv:
  assumes "turns eps sp selected animals s = Some (Inr (b, s'))" "log_inv eps c0 s"
  shows "log_post eps c0 b s'"
  using assms
proof (induction eps sp selected animals s "Inr (b, s') :: error + bool \<times> sim_state"
    rule: turns.raw_induct [rotated 1, consumes 1])
  case (1 turns eps sp selected animals s)
  show ?case
  proof (cases "turn eps sp selected animals s")
    case None
    with 1 show ?thesis by simp
  next
    case (Some r)
    from turn_inv [OF Some "1.prems"] 1(1,2) Some show ?thesis
      by (cases r) auto
  qed
qed

lemma filter_shrink:
  assumes "\<And>x. Q x \<Longrightarrow> P x" "a \<in> set xs" "P a" "\<not> Q a"
  shows "length (filter Q xs) < length (filter P xs)"
proof -
  have "filter Q xs = filter Q (filter P xs)"
    using assms(1) by (auto intro: filter_cong)
  moreover have "a \<in> set (filter P xs)" using assms by simp
  ultimately show ?thesis
    using length_filter_less [of a "filter P xs" Q] assms(4) by simp
qed

lemma turn_total:
  assumes "0 \<le> eps" "set animals \<subseteq> dom (cn s)" "set animals \<subseteq> dom sp"
  shows "(turn eps sp selected animals s = Some (Return True s) \<and> hungry_count eps animals s = 0)
       \<or> (\<exists>s'. turn eps sp selected animals s = Some (Return False s'))
       \<or> (\<exists>s' eater. turn eps sp selected animals s = Some (Continue (s'\<lparr>cn := (cn s)(eater \<mapsto> 0)\<rparr>))
             \<and> eater \<in> set animals \<and> eps < the (cn s eater))"
proof -
  have hu: "hungry_of eps (cn s) animals = Inr (filter (\<lambda>a. eps < the (cn s a)) animals)"
    using hungry_of_ok [OF assms(2)] .
  show ?thesis
  proof (cases "filter (\<lambda>a. eps < the (cn s a)) animals")
    case Nil
    then show ?thesis by (simp add: turn_def hu hungry_count_def)
  next
    case (Cons h hs)
    let ?e = "next_eater (cp s) h hs"
    have "?e \<in> set (h # hs)" by (rule next_eater_mem)
    then have mem: "?e \<in> set animals" and hungry: "eps < the (cn s ?e)"
      using Cons [symmetric] by auto
    from mem assms obtain need r where need: "cn s ?e = Some need" and r: "sp ?e = Some r"
      by blast
    have gt: "eps < need" using hungry need by simp
    show ?thesis
    proof (cases "filter (\<lambda>f. f \<in> selected) (foods r) = []")
      case True
      then have "turn eps sp selected animals s = Some (Return False s)"
        using gt by (simp add: turn_def hu Cons Let_def need r )
      then show ?thesis by blast
    next
      case False
      from eat_total [OF assms(1), of "filter (\<lambda>f. f \<in> selected) (foods r)" need s]
      obtain res where res: "eat eps (filter (\<lambda>f. f \<in> selected) (foods r)) need s = Some res"
        "\<forall>e. res \<noteq> Raise e" by blast
      have tn: "turn eps sp selected animals s =
          (case res of Raise e \<Rightarrow> Some (Raise e) | Return b s' \<Rightarrow> Some (Return b s')
             | Continue s' \<Rightarrow> Some (Continue (s'\<lparr>cn := (cn s')(?e \<mapsto> 0)\<rparr>)))"
        using gt False res(1) by (simp add: turn_def hu Cons Let_def need r )
      show ?thesis
      proof (cases res)
        case (Raise e)
        with res show ?thesis by simp
      next
        case (Return b s')
        with eat_cn [OF res(1)] have "\<not> b" by simp
        with tn Return show ?thesis by simp
      next
        case (Continue s')
        with eat_cn [OF res(1)] have "cn s' = cn s" by simp
        with tn Continue mem hungry show ?thesis by auto
      qed
    qed
  qed
qed

lemma turn_Continue_measure:
  assumes "0 \<le> eps" "eater \<in> set animals" "eps < the (cn s eater)"
  shows "hungry_count eps animals (s'\<lparr>cn := (cn s)(eater \<mapsto> 0)\<rparr>) < hungry_count eps animals s"
  unfolding hungry_count_def
  by (rule filter_shrink [where a = eater]) (use assms in \<open>auto split: if_splits\<close>)

lemma turns_total:
  assumes "0 \<le> eps" "set animals \<subseteq> dom sp"
  shows "set animals \<subseteq> dom (cn s) \<Longrightarrow> \<exists>b s'. turns eps sp selected animals s = Some (Inr (b, s'))"
proof (induction "hungry_count eps animals s" arbitrary: s rule: less_induct)
  case less
  from turn_total [OF assms(1) less.prems assms(2), of selected]
  consider (pass) "turn eps sp selected animals s = Some (Return True s)"
    | (fail) s' where "turn eps sp selected animals s = Some (Return False s')"
    | (again) s' eater where
        "turn eps sp selected animals s = Some (Continue (s'\<lparr>cn := (cn s)(eater \<mapsto> 0)\<rparr>))"
        "eater \<in> set animals" "eps < the (cn s eater)"
    by blast
  then show ?case
  proof cases
    case pass
    then show ?thesis by (subst turns.simps) auto
  next
    case fail
    then show ?thesis by (subst turns.simps) auto
  next
    case again
    let ?s1 = "s'\<lparr>cn := (cn s)(eater \<mapsto> 0)\<rparr>"
    have "hungry_count eps animals ?s1 < hungry_count eps animals s"
      using turn_Continue_measure [OF assms(1) again(2,3)] .
    moreover have "set animals \<subseteq> dom (cn ?s1)" using less.prems by auto
    ultimately obtain b s'' where "turns eps sp selected animals ?s1 = Some (Inr (b, s''))"
      using less.hyps by blast
    with again(1) show ?thesis by (subst turns.simps) simp
  qed
qed

lemma start_state_cn_dom:
  "set producers \<union> set animals \<subseteq> dom sp \<Longrightarrow> set animals \<subseteq> dom (cn (start_state sp producers animals))"
  by (auto simp: start_state_def pool_of_def)

lemma simulate_set_run_total:
  assumes "0 \<le> eps" "set producers \<union> set animals \<subseteq> dom sp"
  shows "\<exists>b s'. simulate_set_run sp producers animals eps = Some (Inr (b, s'))"
  unfolding simulate_set_run_ok [OF assms(2)]
  using turns_total [OF assms(1) _ start_state_cn_dom [OF assms(2)]] assms(2) by simp

subsection \<open>The sweep over the combinations\<close>

lemma default_eps_nonneg: "0 \<le> default_eps"
  by (simp add: default_eps_def)

lemma simulate_set_total:
  assumes "0 \<le> eps" "set producers \<union> set animals \<subseteq> dom sp"
  shows "\<exists>b. simulate_set sp producers animals eps = Some (Inr b)"
  using simulate_set_run_total [OF assms] by (auto simp: simulate_set_def)

lemma length_combinations: "length (combinations xs r) = length xs choose r"
  by (induction xs r rule: combinations.induct) auto

lemma combinations_subset: "c \<in> set (combinations xs r) \<Longrightarrow> set c \<subseteq> set xs \<and> length c = r"
  by (induction xs r arbitrary: c rule: combinations.induct) (auto, blast+)

lemma names_in_dom:
  assumes "keys_are_names sp_map"
  shows "set (producers_of sp_map) \<subseteq> dom (map_of sp_map)"
    and "set (animals_all_of sp_map) \<subseteq> dom (map_of sp_map)"
proof -
  have "name s \<in> dom (map_of sp_map)" if "s \<in> snd ` set sp_map" for s
  proof -
    from that obtain k where "(k, s) \<in> set sp_map" by auto
    moreover from this assms have "name s = k" by (auto simp: keys_are_names_def list_all_iff)
    ultimately show ?thesis by (metis domIff map_of_eq_None_iff fst_conv image_eqI)
  qed
  then show "set (producers_of sp_map) \<subseteq> dom (map_of sp_map)"
    and "set (animals_all_of sp_map) \<subseteq> dom (map_of sp_map)"
    by (auto simp: producers_of_def animals_all_of_def)
qed

lemma sweep_uncapped:
  assumes "\<forall>c\<in>set combos. \<exists>b. simulate_set sp producers c default_eps = Some (Inr b)"
  shows "sweep sp producers None combos results calls =
         Some (calls @ map (Pair producers) combos,
               Inr (results @ map (make_row producers) (filter (passes sp producers) combos)))"
  using assms
proof (induction combos arbitrary: results calls)
  case Nil
  then show ?case by simp
next
  case (Cons c cs)
  then obtain b where b: "simulate_set sp producers c default_eps = Some (Inr b)" by auto
  have rest: "\<forall>c\<in>set cs. \<exists>b. simulate_set sp producers c default_eps = Some (Inr b)"
    using Cons.prems by simp
  show ?case
    using b Cons.IH [OF rest] by (cases b) (simp_all add: passes_def Let_def)
qed

lemma sweep_capped:
  assumes "\<forall>c\<in>set combos. \<exists>b. simulate_set sp producers c default_eps = Some (Inr b)"
    and "int (length results) < cap"
  shows "\<exists>pre post rows.
           sweep sp producers (Some cap) combos results calls
             = Some (calls @ map (Pair producers) pre, Inr (results @ rows))
           \<and> combos = pre @ post
           \<and> rows = map (make_row producers) (filter (passes sp producers) pre)
           \<and> int (length (results @ rows)) \<le> cap
           \<and> (post \<noteq> [] \<longrightarrow> int (length (results @ rows)) = cap)
           \<and> (int (length (results @ rows)) = cap \<longrightarrow> pre \<noteq> [] \<and> passes sp producers (last pre))"
  using assms
proof (induction combos arbitrary: results calls)
  case Nil
  then show ?case by simp
next
  case (Cons c cs)
  then obtain b where b: "simulate_set sp producers c default_eps = Some (Inr b)" by auto
  have rest: "\<forall>c\<in>set cs. \<exists>b. simulate_set sp producers c default_eps = Some (Inr b)"
    using Cons.prems by simp
  show ?case
  proof (cases b)
    case False
    then have np: "\<not> passes sp producers c" using b by (simp add: passes_def)
    from Cons.IH [OF rest Cons.prems(2), of "calls @ [(producers, c)]"]
    obtain pre post rows where
      h: "sweep sp producers (Some cap) cs results (calls @ [(producers, c)])
             = Some ((calls @ [(producers, c)]) @ map (Pair producers) pre, Inr (results @ rows))"
         "cs = pre @ post"
         "rows = map (make_row producers) (filter (passes sp producers) pre)"
         "int (length (results @ rows)) \<le> cap"
         "post \<noteq> [] \<longrightarrow> int (length (results @ rows)) = cap"
         "int (length (results @ rows)) = cap \<longrightarrow> pre \<noteq> [] \<and> passes sp producers (last pre)"
      by blast
    show ?thesis
      apply (rule exI [of _ "c # pre"], rule exI [of _ post], rule exI [of _ rows])
      using h b False np by auto
  next
    case True
    then have pc: "passes sp producers c" using b by (simp add: passes_def)
    show ?thesis
    proof (cases "int (length results) + 1 \<ge> cap")
      case True
      show ?thesis
        apply (rule exI [of _ "[c]"], rule exI [of _ cs], rule exI [of _ "[make_row producers c]"])
        using b \<open>b\<close> pc True Cons.prems(2) by auto
    next
      case False
      then have lt: "int (length (results @ [make_row producers c])) < cap" by simp
      from Cons.IH [OF rest lt, of "calls @ [(producers, c)]"]
      obtain pre post rows where
        h: "sweep sp producers (Some cap) cs (results @ [make_row producers c]) (calls @ [(producers, c)])
               = Some ((calls @ [(producers, c)]) @ map (Pair producers) pre,
                       Inr ((results @ [make_row producers c]) @ rows))"
           "cs = pre @ post"
           "rows = map (make_row producers) (filter (passes sp producers) pre)"
           "int (length ((results @ [make_row producers c]) @ rows)) \<le> cap"
           "post \<noteq> [] \<longrightarrow> int (length ((results @ [make_row producers c]) @ rows)) = cap"
           "int (length ((results @ [make_row producers c]) @ rows)) = cap
              \<longrightarrow> pre \<noteq> [] \<and> passes sp producers (last pre)"
        by blast
      show ?thesis
        apply (rule exI [of _ "c # pre"], rule exI [of _ post],
               rule exI [of _ "make_row producers c # rows"])
        using h b \<open>b\<close> pc False by auto
    qed
  qed
qed

subsection \<open>The enumerator: counts, exhaustive sweep and cap\<close>

lemma eco_one_eater_facts:
  "keys_are_names (eco_one_eater n)"
  "producers_of (eco_one_eater n) = [''P1'', ''P2'', ''P3'']"
  "animals_all_of (eco_one_eater n) =
     [''A01'', ''A02'', ''A03'', ''A04'', ''A05'', ''A06'', ''A07'', ''A08'', ''A09'', ''A10'']"
  by (simp_all add: eco_one_eater_def keys_are_names_def producers_of_def animals_all_of_def
      producer_def animal_def)

lemma eco_too_small_facts:
  "producers_of eco_too_small = [''P1'', ''P2'']"
  "animals_all_of eco_too_small = [''A01'']"
  by (simp_all add: eco_too_small_def producers_of_def animals_all_of_def producer_def animal_def)

lemma enumerated_sets_total:
  assumes "keys_are_names sp_map"
  shows "\<forall>c\<in>set (combinations (animals_all_of sp_map) r).
           \<exists>b. simulate_set (map_of sp_map) (producers_of sp_map) c default_eps = Some (Inr b)"
proof
  fix c assume "c \<in> set (combinations (animals_all_of sp_map) r)"
  then have "set c \<subseteq> set (animals_all_of sp_map)" using combinations_subset by blast
  then have "set (producers_of sp_map) \<union> set c \<subseteq> dom (map_of sp_map)"
    using names_in_dom [OF assms] by blast
  from simulate_set_total [OF default_eps_nonneg this]
  show "\<exists>b. simulate_set (map_of sp_map) (producers_of sp_map) c default_eps = Some (Inr b)" .
qed

text \<open>
  C7. With a number of producers other than 3, or of animals other than 10, the
  enumerator raises ValueError and has called the simulator for no subset: the call log
  is empty and the result is the exception, never a list of rows.
\<close>

theorem C7_wrong_counts_are_fatal:
  assumes "length (producers_of sp_map) \<noteq> 3 \<or> length (animals_all_of sp_map) \<noteq> 10"
  shows "find_run sp_map animals_to_choose cap_results =
           Some ([], Inl (if length (producers_of sp_map) \<noteq> 3
                          then ValueError_producers (length (producers_of sp_map))
                          else ValueError_animals (length (animals_all_of sp_map))))
       \<and> find_sustainable_sets_for_ecosystem sp_map animals_to_choose cap_results =
           Some (Inl (if length (producers_of sp_map) \<noteq> 3
                      then ValueError_producers (length (producers_of sp_map))
                      else ValueError_animals (length (animals_all_of sp_map))))"
  using assms by (auto simp: find_run_def find_sustainable_sets_for_ecosystem_def Let_def)

theorem C7_witness:
  "find_run eco_too_small 5 None = Some ([], Inl (ValueError_producers 2))
   \<and> find_sustainable_sets_for_ecosystem eco_too_small 5 None = Some (Inl (ValueError_producers 2))"
  using C7_wrong_counts_are_fatal [of eco_too_small 5 None]
  by (simp add: eco_too_small_facts)

text \<open>
  C9. Without a cap, on an ecosystem with 3 producers and 10 animals stored under their
  names and a size \<open>animals_to_choose \<ge> 0\<close>, the simulator is called once for every
  combination, in the order of \<open>itertools.combinations\<close>, each time with all the producers;
  that makes \<open>10 choose animals_to_choose\<close> calls, and the result has one row for each
  combination that passes, in the same order.
\<close>

theorem C9_uncapped_sweep_is_exhaustive:
  assumes "keys_are_names sp_map"
    and "length (producers_of sp_map) = 3"
    and "length (animals_all_of sp_map) = 10"
    and "0 \<le> animals_to_choose"
  shows "find_run sp_map animals_to_choose None =
           Some (map (Pair (producers_of sp_map))
                   (combinations (animals_all_of sp_map) (nat animals_to_choose)),
                 Inr (map (make_row (producers_of sp_map))
                        (filter (passes (map_of sp_map) (producers_of sp_map))
                           (combinations (animals_all_of sp_map) (nat animals_to_choose)))))
       \<and> length (combinations (animals_all_of sp_map) (nat animals_to_choose))
           = 10 choose nat animals_to_choose"
proof -
  have "length (combinations (animals_all_of sp_map) (nat animals_to_choose))
          = 10 choose nat animals_to_choose"
    using assms(3) by (simp add: length_combinations)
  moreover have "find_run sp_map animals_to_choose None =
      sweep (map_of sp_map) (producers_of sp_map) None
        (combinations (animals_all_of sp_map) (nat animals_to_choose)) [] []"
    using assms(2-4) by (simp add: find_run_def Let_def)
  ultimately show ?thesis
    using sweep_uncapped [OF enumerated_sets_total [OF assms(1)], of "nat animals_to_choose" "[]" "[]"]
    by simp
qed

theorem C9_witness:
  "map_option (length \<circ> fst) (find_run (eco_one_eater 50) 2 None) = Some 45"
proof -
  have "(10::nat) choose 2 = 45" by (simp add: numeral_2_eq_2 numeral_eq_Suc binomial_Suc_Suc)
  then show ?thesis
    using C9_uncapped_sweep_is_exhaustive [of "eco_one_eater 50" 2]
    by (simp add: eco_one_eater_facts)
qed

text \<open>
  C8. With a cap \<open>c \<ge> 1\<close> (same ecosystems as for C9), the simulator is called for an
  initial segment \<open>pre\<close> of the combinations only. The result holds the rows of the passing
  sets of \<open>pre\<close>, at most \<open>c\<close> of them; when combinations are left over the result has
  exactly \<open>c\<close> rows, and when it has \<open>c\<close> rows the last set evaluated is the one whose pass
  reached the cap.
\<close>

theorem C8_cap_short_circuits:
  assumes "keys_are_names sp_map"
    and "length (producers_of sp_map) = 3"
    and "length (animals_all_of sp_map) = 10"
    and "0 \<le> animals_to_choose"
    and "1 \<le> c"
  shows "\<exists>pre post rows.
           find_run sp_map animals_to_choose (Some c)
             = Some (map (Pair (producers_of sp_map)) pre, Inr rows)
           \<and> combinations (animals_all_of sp_map) (nat animals_to_choose) = pre @ post
           \<and> rows = map (make_row (producers_of sp_map))
                      (filter (passes (map_of sp_map) (producers_of sp_map)) pre)
           \<and> int (length rows) \<le> c
           \<and> (post \<noteq> [] \<longrightarrow> int (length rows) = c)
           \<and> (int (length rows) = c
                \<longrightarrow> pre \<noteq> [] \<and> passes (map_of sp_map) (producers_of sp_map) (last pre))"
proof -
  have "find_run sp_map animals_to_choose (Some c) =
      sweep (map_of sp_map) (producers_of sp_map) (Some c)
        (combinations (animals_all_of sp_map) (nat animals_to_choose)) [] []"
    using assms(2-4) by (simp add: find_run_def Let_def)
  moreover have "int (length ([] :: result_row list)) < c" using assms(5) by simp
  ultimately show ?thesis
    using sweep_capped [OF enumerated_sets_total [OF assms(1)] \<open>int (length []) < c\<close>,
        of "nat animals_to_choose" "[]"]
    by simp
qed

theorem C8_witness:
  "\<exists>calls rows. find_run (eco_one_eater 50) 1 (Some 1) = Some (calls, Inr rows)
     \<and> length rows \<le> 1 \<and> length calls \<le> 10"
proof -
  from C8_cap_short_circuits [of "eco_one_eater 50" 1 1]
  obtain pre post rows where
    h: "find_run (eco_one_eater 50) 1 (Some 1)
          = Some (map (Pair (producers_of (eco_one_eater 50))) pre, Inr rows)"
       "combinations (animals_all_of (eco_one_eater 50)) (nat 1) = pre @ post"
       "int (length rows) \<le> 1"
    by (auto simp: eco_one_eater_facts)
  have "length (pre @ post) = 10"
    unfolding h(2) [symmetric] by (simp add: length_combinations eco_one_eater_facts)
  then have "length pre \<le> 10" by simp
  with h show ?thesis by auto
qed

subsection \<open>Reserves after a pass\<close>

lemmas run_simps =
  simulate_set_def simulate_set_run_def turn_def micro_step_def
  available_of_def top_of_def get_or_def next_eater_def eater_key_def default_eps_def Let_def
  producer_def animal_def final_reserve_def run_writes_def

lemma replay_Nil: "replay c [] = c"
  by (simp add: replay_def)

lemma replay_untouched: "x \<notin> fst ` set ws \<Longrightarrow> replay c ws x = c x"
  by (induction ws rule: rev_induct) (auto simp: replay_snoc replay_Nil)

lemma replay_touched:
  "x \<in> fst ` set ws \<Longrightarrow> \<exists>w\<in>set ws. fst w = x \<and> replay c ws x = Some (snd w)"
  by (induction ws rule: rev_induct) (auto simp: replay_snoc replay_Nil)

lemma simulate_set_Inr:
  "simulate_set sp producers animals eps = Some (Inr b)
     \<longleftrightarrow> (\<exists>s. simulate_set_run sp producers animals eps = Some (Inr (b, s)))"
proof (cases "simulate_set_run sp producers animals eps")
  case None
  then show ?thesis by (simp add: simulate_set_def)
next
  case (Some z)
  then show ?thesis by (cases z) (auto simp: simulate_set_def)
qed

lemma simulate_set_run_Inr_dom:
  assumes "simulate_set_run sp producers animals eps = Some (Inr r)"
  shows "set producers \<union> set animals \<subseteq> dom sp"
  using assms simulate_set_run_err [of producers animals sp eps] by auto

lemma run_post:
  assumes "simulate_set_run sp producers animals eps = Some (Inr (b, s))"
  shows "log_post eps (pool_of cp0 sp (producers @ animals)) b s"
proof -
  have d: "set producers \<union> set animals \<subseteq> dom sp"
    using simulate_set_run_Inr_dom [OF assms] .
  have "turns eps sp (set producers \<union> set animals) animals (start_state sp producers animals)
          = Some (Inr (b, s))"
    using assms simulate_set_run_ok [OF d] by simp
  from turns_inv [OF this start_state_inv] show ?thesis
    by (simp add: start_state_def)
qed

text \<open>
  C1, as the code has it. When \<open>simulate_set\<close> returns True, every value that the run
  wrote to a reserve is above \<open>eps\<close> and not below \<open>- eps\<close>, so no reserve that was
  eaten from ever went to \<open>eps\<close> or below, and every selected species that was eaten from
  ends above \<open>eps\<close>. A selected species that was never eaten from ends with its initial
  \<open>cp0\<close>, whatever that is: the code checks a reserve only after subtracting from it.
\<close>

theorem C1_pass_keeps_eaten_reserves_above_eps:
  assumes "simulate_set sp_map producers animals eps = Some (Inr True)"
  shows "\<exists>s. simulate_set_run sp_map producers animals eps = Some (Inr (True, s))
          \<and> (\<forall>w\<in>set (writes s). eps < snd w \<and> - eps \<le> snd w)
          \<and> (\<forall>x\<in>set producers \<union> set animals.
                if x \<in> fst ` set (writes s) then \<exists>v. cp s x = Some v \<and> eps < v
                else \<exists>r. sp_map x = Some r \<and> cp s x = Some (cp0 r))"
proof -
  from assms obtain s where run: "simulate_set_run sp_map producers animals eps = Some (Inr (True, s))"
    unfolding simulate_set_Inr by blast
  have d: "set producers \<union> set animals \<subseteq> dom sp_map"
    using simulate_set_run_Inr_dom [OF run] .
  let ?c0 = "pool_of cp0 sp_map (producers @ animals)"
  from run_post [OF run] have cp: "cp s = replay ?c0 (writes s)"
    and ok: "\<forall>w\<in>set (writes s). ok_write eps (snd w)"
    by (auto simp: log_post_def list_all_iff)
  have "\<exists>v. cp s x = Some v \<and> eps < v" if "x \<in> fst ` set (writes s)" for x
    using replay_touched [OF that, of ?c0] ok cp by (auto simp: ok_write_def)
  moreover have "\<exists>r. sp_map x = Some r \<and> cp s x = Some (cp0 r)"
    if "x \<notin> fst ` set (writes s)" "x \<in> set producers \<union> set animals" for x
    using replay_untouched [OF that(1), of ?c0] cp d that(2) by (auto simp: pool_of_def)
  ultimately show ?thesis
    using run ok by (auto simp: ok_write_def)
qed

theorem C1_witness:
  "run_writes (map_of (eco_one_eater 50)) [''P1'', ''P2'', ''P3''] [''A01'', ''A02''] default_eps
     = [(''P1'', 50)]
   \<and> final_reserve (map_of (eco_one_eater 50)) [''P1'', ''P2'', ''P3''] [''A01'', ''A02''] default_eps ''P1''
     = Some 50
   \<and> final_reserve (map_of (eco_one_eater 50)) [''P1'', ''P2'', ''P3''] [''A01'', ''A02''] default_eps ''P2''
     = Some 100"
proof -
  have "simulate_set (map_of (eco_one_eater 50)) [''P1'', ''P2'', ''P3''] [''A01'', ''A02''] default_eps
          = Some (Inr True)"
    by (simp add: run_simps eco_one_eater_def turns.simps eat.simps)
  from C1_pass_keeps_eaten_reserves_above_eps [OF this] show ?thesis
    by (simp add: run_simps eco_one_eater_def turns.simps eat.simps)
qed

theorem C1_counterexample:
  "simulate_set (map_of eco_idle_zero) [''P1'', ''P2'', ''P3''] [''A01''] default_eps = Some (Inr True)
   \<and> final_reserve (map_of eco_idle_zero) [''P1'', ''P2'', ''P3''] [''A01''] default_eps ''P3'' = Some 0
   \<and> final_reserve (map_of eco_idle_zero) [''P1'', ''P2'', ''P3''] [''A01''] default_eps ''A01'' = Some 0
   \<and> \<not> default_eps < 0"
  by (simp add: run_simps eco_idle_zero_def turns.simps eat.simps)

text \<open>
  C10. When every subscript of \<open>sp_map\<close> succeeds and no chosen animal needs more than
  \<open>eps\<close>, the call returns True in its first turn: nothing was written, every reserve is
  the initial one. Neither the food lists nor the reserves matter.
\<close>

theorem C10_no_hungry_animal_passes_at_once:
  assumes "set producers \<union> set animals \<subseteq> dom sp_map"
    and "\<forall>a\<in>set animals. cn0 (the (sp_map a)) \<le> eps"
  shows "simulate_set sp_map producers animals eps = Some (Inr True)
       \<and> simulate_set_run sp_map producers animals eps
           = Some (Inr (True, start_state sp_map producers animals))
       \<and> writes (start_state sp_map producers animals) = []
       \<and> (\<forall>x\<in>set producers \<union> set animals.
             cp (start_state sp_map producers animals) x = Some (cp0 (the (sp_map x))))"
proof -
  let ?s = "start_state sp_map producers animals"
  have "set animals \<subseteq> dom (cn ?s)" using start_state_cn_dom [OF assms(1)] .
  from hungry_of_ok [OF this]
  have "hungry_of eps (cn ?s) animals = Inr (filter (\<lambda>a. eps < the (cn ?s a)) animals)" .
  moreover have "\<not> eps < the (cn ?s a)" if "a \<in> set animals" for a
  proof -
    from that assms(1) obtain r where "sp_map a = Some r" by auto
    with that assms(2) show ?thesis by (auto simp: start_state_def pool_of_def)
  qed
  then have "filter (\<lambda>a. eps < the (cn ?s a)) animals = []"
    by (simp add: filter_empty_conv)
  ultimately have "turn eps sp_map (set producers \<union> set animals) animals ?s = Some (Return True ?s)"
    by (simp add: turn_def)
  then have "turns eps sp_map (set producers \<union> set animals) animals ?s = Some (Inr (True, ?s))"
    by (subst turns.simps) simp
  then have run: "simulate_set_run sp_map producers animals eps = Some (Inr (True, ?s))"
    using simulate_set_run_ok [OF assms(1)] by simp
  have "\<forall>x\<in>set producers \<union> set animals. cp ?s x = Some (cp0 (the (sp_map x)))"
    using assms(1) by (auto simp: start_state_def pool_of_def)
  with run show ?thesis by (simp add: simulate_set_def start_state_def)
qed

theorem C10_witness:
  "simulate_set (map_of eco_idle_zero) [''P1'', ''P2'', ''P3''] [] default_eps = Some (Inr True)
   \<and> run_writes (map_of eco_idle_zero) [''P1'', ''P2'', ''P3''] [] default_eps = []
   \<and> final_reserve (map_of eco_idle_zero) [''P1'', ''P2'', ''P3''] [] default_eps ''P3'' = Some 0"
  using C10_no_hungry_animal_passes_at_once
          [of "[''P1'', ''P2'', ''P3'']" "[]" "map_of eco_idle_zero" default_eps]
  by (simp add: eco_idle_zero_def producer_def animal_def run_writes_def final_reserve_def
      start_state_def pool_of_def)

subsection \<open>The choice of the eater and the extinction rule\<close>

text \<open>
  C2, as the code has it. The eater of a turn is \<open>next_eater\<close> of the hungry list: it is
  a hungry animal with the largest current reserve, and among the hungry animals with that
  reserve it has the lexicographically largest name, since \<open>max\<close> compares the pairs
  (reserve, name).
\<close>

theorem C2_tie_goes_to_largest_name:
  "next_eater c h hs \<in> set (h # hs)
   \<and> (\<forall>a\<in>set (h # hs).
         get_or c a 0 \<le> get_or c (next_eater c h hs) 0
         \<and> (get_or c a 0 = get_or c (next_eater c h hs) 0 \<longrightarrow> a \<le> next_eater c h hs))"
proof -
  have "get_or c a 0 \<le> get_or c (next_eater c h hs) 0
        \<and> (get_or c a 0 = get_or c (next_eater c h hs) 0 \<longrightarrow> a \<le> next_eater c h hs)"
    if "a \<in> set (h # hs)" for a
    using next_eater_ge [OF that, of c] by (auto simp: eater_key_def less_eq_prod_def)
  then show ?thesis using next_eater_mem [of c h hs] by blast
qed

theorem C2_witness:
  "next_eater (cp (start_state (map_of eco_tie) [''P1'', ''P2'', ''P3''] [''A1'', ''A2''])) ''A1'' [''A2'']
     = ''A2''"
proof -
  let ?c = "cp (start_state (map_of eco_tie) [''P1'', ''P2'', ''P3''] [''A1'', ''A2''])"
  have v: "get_or ?c ''A1'' 0 = 5" "get_or ?c ''A2'' 0 = 5"
    by (simp_all add: start_state_def pool_of_def eco_tie_def producer_def animal_def get_or_def)
  have lt: "''A1'' < ''A2''" by simp
  from C2_tie_goes_to_largest_name [of ?c "''A1''" "[''A2'']"]
  have "next_eater ?c ''A1'' [''A2''] \<in> {''A1'', ''A2''}"
    and "get_or ?c ''A2'' 0 = get_or ?c (next_eater ?c ''A1'' [''A2'']) 0
           \<longrightarrow> ''A2'' \<le> next_eater ?c ''A1'' [''A2'']"
    by auto
  with v lt show ?thesis by auto
qed

theorem C2_counterexample:
  "hungry_of default_eps (cn (start_state (map_of eco_tie) [''P1'', ''P2'', ''P3''] [''A1'', ''A2'']))
      [''A1'', ''A2''] = Inr [''A1'', ''A2'']
   \<and> get_or (cp (start_state (map_of eco_tie) [''P1'', ''P2'', ''P3''] [''A1'', ''A2''])) ''A1'' 0
     = get_or (cp (start_state (map_of eco_tie) [''P1'', ''P2'', ''P3''] [''A1'', ''A2''])) ''A2'' 0
   \<and> ''A1'' < ''A2''
   \<and> next_eater (cp (start_state (map_of eco_tie) [''P1'', ''P2'', ''P3''] [''A1'', ''A2'']))
        ''A1'' [''A2''] = ''A2''
   \<and> run_writes (map_of eco_tie) [''P1'', ''P2'', ''P3''] [''A1'', ''A2''] default_eps
        = [(''P1'', 3), (''P1'', 0)]
   \<and> simulate_set (map_of eco_tie) [''P1'', ''P2'', ''P3''] [''A1'', ''A2''] default_eps
        = Some (Inr False)"
  by (simp add: run_simps start_state_def pool_of_def eco_tie_def turns.simps eat.simps)

lemma bad_write_is_last:
  assumes "list_all P (butlast ws)" "i < length ws" "\<not> P (ws ! i)"
  shows "Suc i = length ws"
proof (rule ccontr)
  assume "Suc i \<noteq> length ws"
  with assms(2) have "i < length (butlast ws)" by simp
  then have "P (butlast ws ! i)" using assms(1) by (simp add: list_all_length)
  with \<open>i < length (butlast ws)\<close> assms(3) show False by (simp add: nth_butlast)
qed

lemma exact_need_fails:
  assumes eps: "0 \<le> eps" "eps < v"
    and dom: "set producers \<union> set animals \<subseteq> dom sp_map"
    and food: "p1 \<in> set producers \<union> set animals" "sp_map p1 = Some r1" "cp0 r1 = v"
    and eater: "a1 \<in> set animals" "sp_map a1 = Some ra" "cn0 ra = v" "foods ra = [p1]"
    and others: "\<forall>a\<in>set animals. a \<noteq> a1 \<longrightarrow> cn0 (the (sp_map a)) \<le> eps"
  shows "simulate_set_run sp_map producers animals eps =
           Some (Inr (False, (start_state sp_map producers animals)
                   \<lparr>cp := (cp (start_state sp_map producers animals))(p1 \<mapsto> 0),
                    writes := [(p1, 0)]\<rparr>))"
proof -
  let ?s = "start_state sp_map producers animals"
  let ?sel = "set producers \<union> set animals"
  have cp1: "cp ?s p1 = Some v" using food by (auto simp: start_state_def pool_of_def)
  have g1: "get_or (cp ?s) p1 0 = v" using cp1 by (simp add: get_or_def)
  have cna: "cn ?s a1 = Some v" using eater by (simp add: start_state_def pool_of_def)
  have hl: "filter (\<lambda>a. eps < the (cn ?s a)) animals = filter (\<lambda>a. a = a1) animals"
  proof (rule filter_cong [OF refl])
    fix a assume a: "a \<in> set animals"
    show "(eps < the (cn ?s a)) = (a = a1)"
    proof (cases "a = a1")
      case True
      then show ?thesis using cna eps by simp
    next
      case False
      from a dom obtain r where "sp_map a = Some r" by auto
      with a False others show ?thesis by (auto simp: start_state_def pool_of_def)
    qed
  qed
  have "filter (\<lambda>a. a = a1) animals \<noteq> []" using eater(1) by (auto simp: filter_empty_conv)
  then obtain h hs where hh: "filter (\<lambda>a. a = a1) animals = h # hs"
    by (cases "filter (\<lambda>a. a = a1) animals") auto
  have "next_eater (cp ?s) h hs \<in> set (filter (\<lambda>a. a = a1) animals)"
    unfolding hh by (rule next_eater_mem)
  then have ne: "next_eater (cp ?s) h hs = a1" by simp
  have hu: "hungry_of eps (cn ?s) animals = Inr (h # hs)"
    using hungry_of_ok [OF start_state_cn_dom [OF dom]] hl hh by simp
  have av: "step_avail eps (cp ?s) [p1] = [p1]" using g1 eps by (simp add: step_avail_def)
  have tp: "step_top eps (cp ?s) [p1] = [p1]" using g1 eps by (simp add: step_top_def av)
  have tk: "step_take eps (cp ?s) [p1] v = v" using g1 by (simp add: step_take_def tp)
  let ?s1 = "?s\<lparr>cp := (cp ?s)(p1 \<mapsto> 0), writes := [(p1, 0)]\<rparr>"
  have wr: "writes ?s = []" by (simp add: start_state_def)
  have ms: "micro_step eps [p1] v ?s = Return False ?s1"
    using eps cp1 wr by (simp add: micro_step_unfold av tp tk Let_def)
  have et: "eat eps [p1] v ?s = Some (Return False ?s1)"
    using eps ms by (subst eat.simps) simp
  have "turn eps sp_map ?sel animals ?s = Some (Return False ?s1)"
    using eps food(1) eater by (simp add: turn_def hu ne cna et del: Un_iff)
  then have "turns eps sp_map ?sel animals ?s = Some (Inr (False, ?s1))"
    by (subst turns.simps) simp
  then show ?thesis using simulate_set_run_ok [OF dom] by simp
qed

text \<open>
  C3. For \<open>eps \<ge> 0\<close> and selected species that are all keys of \<open>sp_map\<close>, the call
  returns, and a write that leaves a reserve at \<open>eps\<close> or below is the last write of the
  run, whose verdict is False. In particular, when the only hungry animal needs exactly
  the whole reserve \<open>v\<close> of its only food (scenario B has \<open>v = 100\<close>), the first write
  leaves that reserve at 0 and the call returns False.
\<close>

theorem C3_reserve_at_or_below_eps_fails_at_once:
  "(0 \<le> eps \<and> set producers \<union> set animals \<subseteq> dom sp_map \<longrightarrow>
      (\<exists>b s. simulate_set_run sp_map producers animals eps = Some (Inr (b, s))
         \<and> simulate_set sp_map producers animals eps = Some (Inr b)
         \<and> (\<forall>i<length (writes s). snd (writes s ! i) \<le> eps \<longrightarrow> \<not> b \<and> Suc i = length (writes s))))
   \<and> (0 \<le> eps \<and> eps < v \<and> set producers \<union> set animals \<subseteq> dom sp_map
        \<and> p1 \<in> set producers \<union> set animals \<and> sp_map p1 = Some r1 \<and> cp0 r1 = v
        \<and> a1 \<in> set animals \<and> sp_map a1 = Some ra \<and> cn0 ra = v \<and> foods ra = [p1]
        \<and> (\<forall>a\<in>set animals. a \<noteq> a1 \<longrightarrow> cn0 (the (sp_map a)) \<le> eps) \<longrightarrow>
      simulate_set sp_map producers animals eps = Some (Inr False)
      \<and> run_writes sp_map producers animals eps = [(p1, 0)])"
proof (intro conjI impI)
  assume a: "0 \<le> eps \<and> set producers \<union> set animals \<subseteq> dom sp_map"
  from simulate_set_run_total [of eps producers animals sp_map] a
  obtain b s where run: "simulate_set_run sp_map producers animals eps = Some (Inr (b, s))"
    by blast
  from run_post [OF run]
  have bl: "list_all (\<lambda>w. ok_write eps (snd w)) (butlast (writes s))"
    and al: "b \<longrightarrow> list_all (\<lambda>w. ok_write eps (snd w)) (writes s)"
    by (auto simp: log_post_def)
  have "\<not> b \<and> Suc i = length (writes s)"
    if i: "i < length (writes s)" and le: "snd (writes s ! i) \<le> eps" for i
  proof -
    have nok: "\<not> ok_write eps (snd (writes s ! i))" using le by (simp add: ok_write_def)
    from bad_write_is_last [OF bl i] nok have "Suc i = length (writes s)" by simp
    moreover have "\<not> b" using al i nok by (auto simp: list_all_length)
    ultimately show ?thesis by simp
  qed
  with run show "\<exists>b s. simulate_set_run sp_map producers animals eps = Some (Inr (b, s))
         \<and> simulate_set sp_map producers animals eps = Some (Inr b)
         \<and> (\<forall>i<length (writes s). snd (writes s ! i) \<le> eps \<longrightarrow> \<not> b \<and> Suc i = length (writes s))"
    by (auto simp: simulate_set_def)
next
  assume b: "0 \<le> eps \<and> eps < v \<and> set producers \<union> set animals \<subseteq> dom sp_map
        \<and> p1 \<in> set producers \<union> set animals \<and> sp_map p1 = Some r1 \<and> cp0 r1 = v
        \<and> a1 \<in> set animals \<and> sp_map a1 = Some ra \<and> cn0 ra = v \<and> foods ra = [p1]
        \<and> (\<forall>a\<in>set animals. a \<noteq> a1 \<longrightarrow> cn0 (the (sp_map a)) \<le> eps)"
  then have "simulate_set_run sp_map producers animals eps =
           Some (Inr (False, (start_state sp_map producers animals)
                   \<lparr>cp := (cp (start_state sp_map producers animals))(p1 \<mapsto> 0),
                    writes := [(p1, 0)]\<rparr>))"
    by (intro exact_need_fails [where v = v and ?r1.0 = r1 and ra = ra and ?a1.0 = a1]) simp_all
  then show "simulate_set sp_map producers animals eps = Some (Inr False)"
    and "run_writes sp_map producers animals eps = [(p1, 0)]"
    by (simp_all add: simulate_set_def run_writes_def)
qed

theorem C3_witness:
  "simulate_set (map_of (eco_one_eater 100)) [''P1'', ''P2'', ''P3'']
      [''A01'', ''A02'', ''A03'', ''A04'', ''A05''] default_eps = Some (Inr False)
   \<and> run_writes (map_of (eco_one_eater 100)) [''P1'', ''P2'', ''P3'']
      [''A01'', ''A02'', ''A03'', ''A04'', ''A05''] default_eps = [(''P1'', 0)]"
  using C3_reserve_at_or_below_eps_fails_at_once
    [of default_eps "[''P1'', ''P2'', ''P3'']" "[''A01'', ''A02'', ''A03'', ''A04'', ''A05'']"
        "map_of (eco_one_eater 100)" 100 "''P1''" "snd (producer ''P1'' 100)"
        "''A01''" "snd (animal ''A01'' 10 100 [''P1''])"]
  by (simp add: eco_one_eater_def producer_def animal_def default_eps_def)

subsection \<open>Animals without food\<close>

lemma turn_starving:
  assumes x: "x \<in> set animals" "cn s x = Some v" "eps < v"
    and r: "sp x = Some r" "filter (\<lambda>f. f \<in> selected) (foods r) = []"
  shows "turn eps sp selected animals s = Some (Return b s') \<Longrightarrow> \<not> b"
    and "turn eps sp selected animals s = Some (Continue s') \<Longrightarrow> cn s' x = Some v"
proof -
  have both: "(turn eps sp selected animals s = Some (Return b s') \<longrightarrow> \<not> b)
      \<and> (turn eps sp selected animals s = Some (Continue s') \<longrightarrow> cn s' x = Some v)"
  proof (cases "hungry_of eps (cn s) animals")
    case (Inl e)
    then show ?thesis by (simp add: turn_def)
  next
    case (Inr hl)
    from hungry_of_Inr [OF Inr] have hl: "hl = filter (\<lambda>a. eps < the (cn s a)) animals" by simp
    then have "x \<in> set hl" using x by simp
    then obtain h hs where hh: "hl = h # hs" by (cases hl) auto
    let ?e = "next_eater (cp s) h hs"
    have "?e \<in> set hl" unfolding hh by (rule next_eater_mem)
    then have eh: "eps < the (cn s ?e)" using hl by simp
    show ?thesis
    proof (cases "cn s ?e")
      case None
      then show ?thesis by (simp add: turn_def Inr hh Let_def)
    next
      case (Some need)
      with eh have gt: "eps < need" by simp
      show ?thesis
      proof (cases "sp ?e")
        case None
        then show ?thesis using gt by (simp add: turn_def Inr hh Let_def Some)
      next
        case (Some sr)
        note spe = Some
        show ?thesis
        proof (cases "filter (\<lambda>f. f \<in> selected) (foods sr) = []")
          case True
          then show ?thesis
            using gt by (simp add: turn_def Inr hh Let_def \<open>cn s ?e = Some need\<close> spe)
        next
          case False
          then have ne: "?e \<noteq> x" using r spe by auto
          show ?thesis
          proof (cases "eat eps (filter (\<lambda>f. f \<in> selected) (foods sr)) need s")
            case None
            then show ?thesis
              using gt False by (simp add: turn_def Inr hh Let_def \<open>cn s ?e = Some need\<close> spe)
          next
            case (Some res)
            from eat_cn [OF Some] ne x(2) show ?thesis
              using gt False Some
              by (cases res) (auto simp: turn_def Inr hh Let_def \<open>cn s ?e = Some need\<close> spe)
          qed
        qed
      qed
    qed
  qed
  show "turn eps sp selected animals s = Some (Return b s') \<Longrightarrow> \<not> b"
    and "turn eps sp selected animals s = Some (Continue s') \<Longrightarrow> cn s' x = Some v"
    using both by blast+
qed

lemma turns_starving:
  assumes "turns eps sp selected animals s = Some (Inr (b, s'))"
    and "x \<in> set animals" "cn s x = Some v" "eps < v"
    and "sp x = Some r" "filter (\<lambda>f. f \<in> selected) (foods r) = []"
  shows "\<not> b"
  using assms
proof (induction eps sp selected animals s "Inr (b, s') :: error + bool \<times> sim_state"
    rule: turns.raw_induct [rotated 1, consumes 1])
  case (1 turns eps sp selected animals s)
  show ?case
  proof (cases "turn eps sp selected animals s")
    case None
    with 1(2) show ?thesis by simp
  next
    case (Some res)
    show ?thesis
    proof (cases res)
      case (Raise e)
      with 1(2) Some show ?thesis by simp
    next
      case (Return b' s'')
      with 1(2) Some have "b' = b" by simp
      with turn_starving(1) [where sp = sp and x = x, OF "1.prems"] Some Return
      show ?thesis by blast
    next
      case (Continue s1)
      with 1(2) Some have rec: "turns eps sp selected animals s1 = Some (Inr (b, s'))" by simp
      from turn_starving(2) [where sp = sp and x = x, OF "1.prems"] Some Continue
      have "cn s1 x = Some v" by simp
      from 1(1) [OF rec "1.prems"(1) this "1.prems"(3-5)] show ?thesis .
    qed
  qed
qed

text \<open>
  C4. In a turn whose eater has no food source among the selected species, the turn
  returns False with the state as it found it, and so does the loop. Hence, for
  \<open>eps \<ge> 0\<close> and selected species that are all keys of \<open>sp_map\<close>, a set that contains
  an animal needing more than \<open>eps\<close> whose food sources are all outside the set fails.
\<close>

theorem C4_no_allowed_food_fails:
  "(hungry_of eps (cn s) animals = Inr (h # hs)
      \<and> sp_map (next_eater (cp s) h hs) = Some r
      \<and> filter (\<lambda>f. f \<in> selected) (foods r) = [] \<longrightarrow>
      turn eps sp_map selected animals s = Some (Return False s)
      \<and> turns eps sp_map selected animals s = Some (Inr (False, s)))
   \<and> (0 \<le> eps \<and> set producers \<union> set animals \<subseteq> dom sp_map
        \<and> x \<in> set animals \<and> sp_map x = Some rx \<and> eps < cn0 rx
        \<and> (\<forall>f\<in>set (foods rx). f \<notin> set producers \<union> set animals) \<longrightarrow>
      simulate_set sp_map producers animals eps = Some (Inr False))"
proof (intro conjI impI)
  assume a: "hungry_of eps (cn s) animals = Inr (h # hs)
      \<and> sp_map (next_eater (cp s) h hs) = Some r
      \<and> filter (\<lambda>f. f \<in> selected) (foods r) = []"
  let ?e = "next_eater (cp s) h hs"
  from a hungry_of_Inr [of eps "cn s" animals "h # hs"]
  have d: "set animals \<subseteq> dom (cn s)" and hl: "h # hs = filter (\<lambda>a. eps < the (cn s a)) animals"
    by auto
  have "?e \<in> set (h # hs)" by (rule next_eater_mem)
  then have "?e \<in> set animals" and gt: "eps < the (cn s ?e)" unfolding hl by auto
  with d obtain need where need: "cn s ?e = Some need" by auto
  with gt have "eps < need" by simp
  then show t: "turn eps sp_map selected animals s = Some (Return False s)"
    using a need by (simp add: turn_def Let_def)
  show "turns eps sp_map selected animals s = Some (Inr (False, s))"
    by (subst turns.simps) (simp add: t)
next
  assume b: "0 \<le> eps \<and> set producers \<union> set animals \<subseteq> dom sp_map
        \<and> x \<in> set animals \<and> sp_map x = Some rx \<and> eps < cn0 rx
        \<and> (\<forall>f\<in>set (foods rx). f \<notin> set producers \<union> set animals)"
  let ?s = "start_state sp_map producers animals"
  let ?sel = "set producers \<union> set animals"
  from b have d: "?sel \<subseteq> dom sp_map" and e: "0 \<le> eps" by auto
  from simulate_set_run_total [OF e d] obtain bb s' where
    run: "simulate_set_run sp_map producers animals eps = Some (Inr (bb, s'))" by blast
  then have t: "turns eps sp_map ?sel animals ?s = Some (Inr (bb, s'))"
    using simulate_set_run_ok [OF d] by simp
  have cnx: "cn ?s x = Some (cn0 rx)" using b by (simp add: start_state_def pool_of_def)
  have nf: "filter (\<lambda>f. f \<in> ?sel) (foods rx) = []"
    using b by (auto simp: filter_empty_conv)
  from turns_starving [where sp = sp_map and x = x, OF t _ cnx _ _ nf] b have "\<not> bb" by blast
  with run show "simulate_set sp_map producers animals eps = Some (Inr False)"
    by (simp add: simulate_set_def)
qed

theorem C4_witness:
  "simulate_set (map_of eco_stranger) [''P1'', ''P2'', ''P3''] [''A01''] default_eps = Some (Inr False)
   \<and> run_writes (map_of eco_stranger) [''P1'', ''P2'', ''P3''] [''A01''] default_eps = []"
proof -
  let ?s = "start_state (map_of eco_stranger) [''P1'', ''P2'', ''P3''] [''A01'']"
  have "hungry_of default_eps (cn ?s) [''A01''] = Inr [''A01'']"
    by (simp add: start_state_def pool_of_def eco_stranger_def producer_def animal_def default_eps_def)
  moreover have "next_eater (cp ?s) ''A01'' [] = ''A01''" by (simp add: next_eater_def)
  ultimately show ?thesis
    using C4_no_allowed_food_fails
      [of default_eps ?s "[''A01'']" "''A01''" "[]" "map_of eco_stranger"
          "snd (animal ''A01'' 10 5 [''A02''])" "{''P1'', ''P2'', ''P3'', ''A01''}"
          "[''P1'', ''P2'', ''P3'']" "''A01''" "snd (animal ''A01'' 10 5 [''A02''])"]
    by (simp add: run_simps eco_stranger_def turns.simps eat.simps)
qed

subsection \<open>The micro-step\<close>






subsection \<open>Termination\<close>

lemma round_half_even_near: "\<bar>real_of_int (round_half_even y) - y\<bar> \<le> 1 / 2"
  unfolding round_half_even_def Let_def by (auto; linarith)

lemma round_double_error: "\<bar>round_double x - x\<bar> \<le> \<bar>x\<bar> / 8"
proof (cases "x = 0")
  case True
  then show ?thesis by (simp add: round_double_def)
next
  case False
  define e :: int where "e = \<lfloor>log 2 \<bar>x\<bar>\<rfloor>"
  define q :: real where "q = 2 powr (of_int e - 52)"
  have q: "0 < q" by (simp add: q_def)
  have "2 powr (of_int e) \<le> \<bar>x\<bar>"
    using False floor_log_eq_powr_iff [of "\<bar>x\<bar>" 2 e] by (simp add: e_def)
  moreover have "q = 2 powr (of_int e) / 2 powr 52"
    by (simp add: q_def powr_diff)
  ultimately have qx: "q * 2 ^ 52 \<le> \<bar>x\<bar>" by simp
  have rd: "round_double x = q * of_int (round_half_even (x / q))"
    using False by (simp add: round_double_def Let_def q_def e_def)
  have "round_double x - x = q * (of_int (round_half_even (x / q)) - x / q)"
    using q by (simp add: rd field_simps)
  then have "\<bar>round_double x - x\<bar> = q * \<bar>of_int (round_half_even (x / q)) - x / q\<bar>"
    using q by (simp add: abs_mult)
  also have "\<dots> \<le> q * (1 / 2)"
    using q round_half_even_near [of "x / q"] by (intro mult_left_mono) auto
  also have "\<dots> \<le> q * 2 ^ 52 / 8" using q by simp
  also have "\<dots> \<le> \<bar>x\<bar> / 8" using qx by simp
  finally show ?thesis .
qed

lemma small_error_round_double: "small_error round_double"
  unfolding small_error_def by (intro allI round_double_error)

lemma small_error_id: "small_error (\<lambda>x. x)"
  by (simp add: small_error_def)

text \<open>With the identity for \<open>rnd\<close> the rounded micro-step is the exact one.\<close>

lemma feed_top_r_id: "feed_top_r (\<lambda>x. x) eps te tops s = feed_top eps te tops s"
  by (induction tops arbitrary: s) (auto simp: Let_def split: option.splits)

lemma top_of_r_id: "top_of_r (\<lambda>x. x) eps m av = top_of eps m av"
  by (simp add: top_of_r_def top_of_def)

lemma micro_step_r_id:
  "micro_step_r (\<lambda>x. x) eps allowed need s = micro_step eps allowed need s"
  unfolding micro_step_r_def micro_step_def top_of_r_id feed_top_r_id ..

lemma rnd_zero: "small_error rnd \<Longrightarrow> rnd 0 = 0"
  unfolding small_error_def by (metis abs_le_zero_iff abs_zero diff_zero div_0)

lemma rnd_lower: "small_error rnd \<Longrightarrow> 0 \<le> y \<Longrightarrow> 7 / 8 * y \<le> rnd y"
  unfolding small_error_def by (erule allE [of _ y]) linarith

lemma rnd_upper: "small_error rnd \<Longrightarrow> 0 \<le> y \<Longrightarrow> rnd y \<le> 9 / 8 * y"
  unfolding small_error_def by (erule allE [of _ y]) linarith

lemma rnd_nonpos: "small_error rnd \<Longrightarrow> y \<le> 0 \<Longrightarrow> rnd y \<le> 0"
  unfolding small_error_def by (erule allE [of _ y]) linarith

lemma rnd_abs: "small_error rnd \<Longrightarrow> \<bar>y\<bar> \<le> 8 / 7 * \<bar>rnd y\<bar>"
  unfolding small_error_def by (erule allE [of _ y]) linarith

text \<open>
  One subtraction that passes the checks, from a reserve \<open>v\<close> close to the least
  reserve \<open>m\<close> of the top set, by a share \<open>te\<close> close to \<open>m\<close>: the reserve drops by
  at least \<open>eps / 2\<close>.
\<close>

lemma sub_drop:
  assumes se: "small_error rnd"
    and "0 < eps" "eps < m" "49 / 64 * m \<le> te" "v \<le> 15 / 7 * m" "eps < rnd (v - te)"
  shows "rnd (v - te) \<le> v - eps / 2"
proof -
  have "0 < v - te"
  proof (rule ccontr)
    assume "\<not> 0 < v - te"
    then have "rnd (v - te) \<le> 0" by (intro rnd_nonpos [OF se]) simp
    with assms show False by simp
  qed
  then have r: "rnd (v - te) \<le> 9 / 8 * (v - te)" by (intro rnd_upper [OF se]) simp
  have a: "v / 8 \<le> 15 / 56 * m" using assms(5) by simp
  have b: "441 / 512 * m \<le> 9 / 8 * te" using assms(4) by simp
  have c: "m / 2 \<le> 441 / 512 * m - 15 / 56 * m" using assms(2,3) by simp
  have d: "eps / 2 < m / 2" using assms(3) by simp
  have "9 / 8 * (v - te) = v + v / 8 - 9 / 8 * te" by (simp add: field_simps)
  with r a b c d show ?thesis by linarith
qed

lemma feed_top_r_cn:
  "feed_top_r rnd eps te tops s = Continue s' \<Longrightarrow> cn s' = cn s"
  "feed_top_r rnd eps te tops s = Return b s' \<Longrightarrow> \<not> b \<and> cn s' = cn s"
  by (induction tops arbitrary: s; auto simp: Let_def split: option.splits if_splits)+

lemma feed_top_r_no_raise:
  "set tops \<subseteq> dom (cp s) \<Longrightarrow> feed_top_r rnd eps te tops s \<noteq> Raise e"
proof (induction tops arbitrary: s)
  case Nil
  then show ?case by simp
next
  case (Cons g gs)
  then obtain v where v: "cp s g = Some v" by auto
  let ?s1 = "s\<lparr>cp := (cp s)(g \<mapsto> rnd (v - te)), writes := writes s @ [(g, rnd (v - te))]\<rparr>"
  have "set gs \<subseteq> dom (cp ?s1)" using Cons.prems by auto
  from Cons.IH [OF this] v show ?case by (simp add: Let_def)
qed

lemma feed_top_r_drop:
  assumes se: "small_error rnd" and e: "0 < eps" "eps < m" and te: "49 / 64 * m \<le> te"
  shows "feed_top_r rnd eps te tops s = Continue s' \<Longrightarrow>
         (\<forall>f\<in>set tops. \<forall>v. cp s f = Some v \<longrightarrow> v \<le> 15 / 7 * m) \<Longrightarrow>
         (\<forall>f. f \<notin> set tops \<longrightarrow> cp s' f = cp s f)
         \<and> (\<forall>f\<in>set tops. \<exists>v v'. cp s f = Some v \<and> cp s' f = Some v' \<and> eps < v' \<and> v' \<le> v - eps / 2)"
proof (induction tops arbitrary: s)
  case Nil
  then show ?case by simp
next
  case (Cons g gs)
  from Cons.prems(1) obtain v where v: "cp s g = Some v"
    by (auto split: option.splits)
  let ?v1 = "rnd (v - te)"
  let ?s1 = "s\<lparr>cp := (cp s)(g \<mapsto> ?v1), writes := writes s @ [(g, ?v1)]\<rparr>"
  from Cons.prems(1) v have ok: "eps < ?v1" and rest: "feed_top_r rnd eps te gs ?s1 = Continue s'"
    by (auto simp: Let_def split: if_splits)
  have vb: "v \<le> 15 / 7 * m" using Cons.prems(2) v by simp
  have drop: "?v1 \<le> v - eps / 2" using sub_drop [OF se e te vb ok] .
  have b1: "\<forall>f\<in>set gs. \<forall>w. cp ?s1 f = Some w \<longrightarrow> w \<le> 15 / 7 * m"
    using Cons.prems(2) drop vb e by auto
  from Cons.IH [OF rest b1]
  have un: "\<forall>f. f \<notin> set gs \<longrightarrow> cp s' f = cp ?s1 f"
    and dr: "\<forall>f\<in>set gs. \<exists>w w'. cp ?s1 f = Some w \<and> cp s' f = Some w' \<and> eps < w' \<and> w' \<le> w - eps / 2"
    by auto
  have "\<exists>w w'. cp s f = Some w \<and> cp s' f = Some w' \<and> eps < w' \<and> w' \<le> w - eps / 2"
    if f: "f \<in> set (g # gs)" for f
  proof (cases "f \<in> set gs")
    case False
    with f have fg: "f = g" by simp
    with un False have "cp s' f = Some ?v1" by simp
    with fg v ok drop show ?thesis by simp
  next
    case True
    with dr obtain w w' where w: "cp ?s1 f = Some w" "cp s' f = Some w'" "eps < w'" "w' \<le> w - eps / 2"
      by blast
    show ?thesis
    proof (cases "f = g")
      case True
      with w(1) have "w = ?v1" by simp
      with w drop e True v show ?thesis by auto
    next
      case False
      with w show ?thesis by auto
    qed
  qed
  moreover have "\<forall>f. f \<notin> set (g # gs) \<longrightarrow> cp s' f = cp s f"
    using un by auto
  ultimately show ?case by blast
qed

lemma top_of_r_available:
  "top_of_r rnd eps M (available_of eps c allowed) =
     filter (\<lambda>f. \<bar>rnd (get_or c f 0 - M)\<bar> \<le> eps) (filter (\<lambda>f. eps < get_or c f 0) allowed)"
  unfolding top_of_r_def available_of_def by (induction allowed) auto

lemma sum_drop:
  fixes g g' :: "'a \<Rightarrow> real"
  assumes "finite A" "x0 \<in> A" "\<forall>x\<in>A. g' x \<le> g x" "g' x0 \<le> g x0 - d"
  shows "sum g' A \<le> sum g A - d"
proof -
  have a: "sum g A = g x0 + sum g (A - {x0})" using assms(1,2) by (rule sum.remove)
  have b: "sum g' A = g' x0 + sum g' (A - {x0})" using assms(1,2) by (rule sum.remove)
  have "sum g' (A - {x0}) \<le> sum g (A - {x0})" using assms(3) by (intro sum_mono) simp
  with a b assms(4) show ?thesis by linarith
qed

lemma pool_mass_nonneg: "0 \<le> pool_mass allowed c"
  unfolding pool_mass_def by (intro sum_nonneg) simp

text \<open>
  A micro-step under rounding: it returns False, or it leaves a need of 0, or it takes
  at least \<open>eps / 2\<close> from the reserves of the allowed foods.
\<close>

lemma micro_step_r_cases:
  assumes se: "small_error rnd" and e: "0 < eps"
  shows "(\<exists>s'. micro_step_r rnd eps allowed need s = Return False s' \<and> cn s' = cn s)
       \<or> (\<exists>need' s'. micro_step_r rnd eps allowed need s = Continue (need', s') \<and> cn s' = cn s
             \<and> (need' = 0 \<or> pool_mass allowed (cp s') \<le> pool_mass allowed (cp s) - eps / 2))"
proof -
  let ?g = "\<lambda>f. get_or (cp s) f 0"
  define A where "A = filter (\<lambda>f. eps < ?g f) allowed"
  define M where "M = Max (set (map snd (available_of eps (cp s) allowed)))"
  define T where "T = filter (\<lambda>f. \<bar>rnd (?g f - M)\<bar> \<le> eps) A"
  define m where "m = Min (set (map ?g T))"
  define mt where "mt = rnd (real (length T) * m)"
  define tk where "tk = min need mt"
  define te where "te = rnd (tk / real (length T))"
  show ?thesis
  proof (cases "A = []")
    case True
    then have "micro_step_r rnd eps allowed need s = Return False s"
      by (simp add: micro_step_r_def available_of_Nil A_def)
    then show ?thesis by simp
  next
    case False
    have Mval: "M = Max (?g ` set A)" by (simp add: M_def available_of_snd A_def)
    have "Max (?g ` set A) \<in> ?g ` set A" using False by (intro Max_in) auto
    then obtain f0 where f0: "f0 \<in> set A" "?g f0 = M" unfolding Mval by auto
    have "f0 \<in> set T" using f0 e rnd_zero [OF se] by (simp add: T_def)
    then have Tne: "T \<noteq> []" by auto
    have TA: "set T \<subseteq> set A" by (auto simp: T_def)
    have Tallowed: "set T \<subseteq> set allowed" by (auto simp: T_def A_def)
    have Tdom: "set T \<subseteq> dom (cp s)"
      using e by (auto simp: T_def A_def get_or_def split: option.splits)
    have sub: "subscript_all (cp s) T = Inr (map ?g T)"
      using subscript_all_ok [OF Tdom] .
    have top: "top_of_r rnd eps M (available_of eps (cp s) allowed) = T"
      by (simp add: top_of_r_available T_def A_def)
    have av: "available_of eps (cp s) allowed \<noteq> []"
      using False by (simp add: available_of_Nil A_def)
    have ms: "micro_step_r rnd eps allowed need s =
        (case feed_top_r rnd eps te T s of
           Raise e \<Rightarrow> Raise e
         | Return b s' \<Rightarrow> Return b s'
         | Continue s' \<Rightarrow> Continue (rnd (need - tk), s'))"
      unfolding micro_step_r_def Let_def M_def [symmetric] top sub
      using av Tne by (simp add: m_def mt_def tk_def te_def cong: flow.case_cong)
    show ?thesis
    proof (cases "feed_top_r rnd eps te T s")
      case (Raise x)
      with feed_top_r_no_raise [OF Tdom] show ?thesis by blast
    next
      case (Return b s')
      with feed_top_r_cn(2) [of rnd eps te T s b s'] ms show ?thesis by auto
    next
      case (Continue s')
      then have cn': "cn s' = cn s" by (rule feed_top_r_cn(1))
      have res: "micro_step_r rnd eps allowed need s = Continue (rnd (need - tk), s')"
        using ms Continue by simp
      show ?thesis
      proof (cases "need \<le> mt")
        case True
        then have "rnd (need - tk) = 0" by (simp add: tk_def rnd_zero [OF se])
        with res cn' show ?thesis by simp
      next
        case False
        then have tk: "tk = mt" by (simp add: tk_def)
        have "Min (?g ` set T) \<in> ?g ` set T" using Tne by (intro Min_in) auto
        then obtain fm where fm: "fm \<in> set T" "?g fm = m" by (auto simp: m_def)
        have em: "eps < m" using fm by (auto simp: T_def A_def)
        have "\<bar>rnd (m - M)\<bar> \<le> eps" using fm by (auto simp: T_def)
        with rnd_abs [OF se, of "m - M"] have "\<bar>m - M\<bar> \<le> 8 / 7 * eps" by linarith
        with em have Mb: "M \<le> 15 / 7 * m" by linarith
        have le: "?g f \<le> M" if "f \<in> set T" for f
          unfolding Mval using that TA by (intro Max_ge) auto
        have k: "0 < real (length T)" using Tne by simp
        have "0 \<le> real (length T) * m" using k em e by simp
        from rnd_lower [OF se this] have mtb: "7 / 8 * (real (length T) * m) \<le> mt"
          by (simp add: mt_def)
        have "7 / 8 * m \<le> mt / real (length T)"
          using mtb k by (simp add: field_simps)
        moreover have "0 \<le> mt / real (length T)"
          using calculation em e by linarith
        ultimately have teb: "49 / 64 * m \<le> te"
          using rnd_lower [OF se, of "mt / real (length T)"] by (simp add: te_def tk)
        have bound: "\<forall>f\<in>set T. \<forall>v. cp s f = Some v \<longrightarrow> v \<le> 15 / 7 * m"
        proof (intro ballI allI impI)
          fix f v assume "f \<in> set T" "cp s f = Some v"
          with le [of f] have "v \<le> M" by (simp add: get_or_def)
          with Mb show "v \<le> 15 / 7 * m" by linarith
        qed
        from feed_top_r_drop [OF se e em teb Continue bound]
        have un: "\<And>f. f \<notin> set T \<Longrightarrow> cp s' f = cp s f"
          and dr: "\<And>f. f \<in> set T \<Longrightarrow> \<exists>v v'. cp s f = Some v \<and> cp s' f = Some v' \<and> eps < v' \<and> v' \<le> v - eps / 2"
          by auto
        have mono: "\<forall>f\<in>set allowed. max 0 (get_or (cp s') f 0) \<le> max 0 (get_or (cp s) f 0)"
        proof
          fix f assume "f \<in> set allowed"
          show "max 0 (get_or (cp s') f 0) \<le> max 0 (get_or (cp s) f 0)"
          proof (cases "f \<in> set T")
            case True
            from dr [OF this] e show ?thesis by (auto simp: get_or_def)
          next
            case False
            from un [OF this] show ?thesis by (simp add: get_or_def)
          qed
        qed
        from dr [OF fm(1)] e
        have one: "max 0 (get_or (cp s') fm 0) \<le> max 0 (get_or (cp s) fm 0) - eps / 2"
          by (auto simp: get_or_def)
        have "fm \<in> set allowed" using fm(1) Tallowed by auto
        from sum_drop [OF _ this mono one]
        have "pool_mass allowed (cp s') \<le> pool_mass allowed (cp s) - eps / 2"
          by (simp add: pool_mass_def)
        with res cn' show ?thesis by simp
      qed
    qed
  qed
qed

lemma measure_drop:
  assumes "0 < eps" "0 \<le> b" "b \<le> a - eps / 2"
  shows "nat \<lfloor>2 * b / eps\<rfloor> < nat \<lfloor>2 * a / eps\<rfloor>"
proof -
  have "2 * b / eps \<le> 2 * a / eps - 1" using assms by (simp add: field_simps)
  then have "\<lfloor>2 * b / eps\<rfloor> \<le> \<lfloor>2 * a / eps - 1\<rfloor>" by (rule floor_mono)
  then have "\<lfloor>2 * b / eps\<rfloor> < \<lfloor>2 * a / eps\<rfloor>" by simp
  moreover have "0 \<le> \<lfloor>2 * b / eps\<rfloor>" using assms by simp
  ultimately show ?thesis by linarith
qed

text \<open>
  The inner loop ends from every state: the need is 0 after a pass, or the reserves of
  the allowed foods, which are never negative in sum, have lost \<open>eps / 2\<close>.
\<close>

lemma eat_r_total:
  assumes se: "small_error rnd" and e: "0 < eps"
  shows "\<exists>r. eat_r rnd eps allowed need s = Some r \<and> (\<forall>x. r \<noteq> Raise x)
           \<and> (case r of Raise x \<Rightarrow> True | Return b s' \<Rightarrow> \<not> b \<and> cn s' = cn s
               | Continue s' \<Rightarrow> cn s' = cn s)"
proof (induction "nat \<lfloor>2 * pool_mass allowed (cp s) / eps\<rfloor>" arbitrary: need s rule: less_induct)
  case less
  show ?case
  proof (cases "eps < need")
    case False
    then show ?thesis by (subst eat_r.simps) simp
  next
    case True
    from micro_step_r_cases [OF se e, of allowed need s]
    consider (fail) s' where "micro_step_r rnd eps allowed need s = Return False s'" "cn s' = cn s"
      | (fed) s' where "micro_step_r rnd eps allowed need s = Continue (0, s')" "cn s' = cn s"
      | (again) need' s' where "micro_step_r rnd eps allowed need s = Continue (need', s')"
          "cn s' = cn s" "pool_mass allowed (cp s') \<le> pool_mass allowed (cp s) - eps / 2"
      by blast
    then show ?thesis
    proof cases
      case fail
      with True show ?thesis by (subst eat_r.simps) simp
    next
      case fed
      have "eat_r rnd eps allowed 0 s' = Some (Continue s')"
        using e by (subst eat_r.simps) simp
      with fed True show ?thesis by (subst eat_r.simps) simp
    next
      case again
      have "nat \<lfloor>2 * pool_mass allowed (cp s') / eps\<rfloor> < nat \<lfloor>2 * pool_mass allowed (cp s) / eps\<rfloor>"
        using measure_drop [OF e pool_mass_nonneg again(3)] .
      from less [OF this, of need'] obtain r where
        r: "eat_r rnd eps allowed need' s' = Some r" "\<forall>x. r \<noteq> Raise x"
           "case r of Raise x \<Rightarrow> True | Return b s'' \<Rightarrow> \<not> b \<and> cn s'' = cn s'
               | Continue s'' \<Rightarrow> cn s'' = cn s'"
        by blast
      have "eat_r rnd eps allowed need s = Some r"
        using True again(1) r(1) by (subst eat_r.simps) simp
      with r(2,3) again(2) show ?thesis by (auto split: flow.splits)
    qed
  qed
qed

lemma turn_r_total:
  assumes se: "small_error rnd" and e: "0 < eps"
    and d: "set animals \<subseteq> dom (cn s)" "set animals \<subseteq> dom sp"
  shows "(turn_r rnd eps sp selected animals s = Some (Return True s) \<and> hungry_count eps animals s = 0)
       \<or> (\<exists>s'. turn_r rnd eps sp selected animals s = Some (Return False s'))
       \<or> (\<exists>s' eater. turn_r rnd eps sp selected animals s = Some (Continue (s'\<lparr>cn := (cn s)(eater \<mapsto> 0)\<rparr>))
             \<and> eater \<in> set animals \<and> eps < the (cn s eater))"
proof -
  have hu: "hungry_of eps (cn s) animals = Inr (filter (\<lambda>a. eps < the (cn s a)) animals)"
    using hungry_of_ok [OF d(1)] .
  show ?thesis
  proof (cases "filter (\<lambda>a. eps < the (cn s a)) animals")
    case Nil
    then show ?thesis by (simp add: turn_r_def hu hungry_count_def)
  next
    case (Cons h hs)
    let ?e = "next_eater (cp s) h hs"
    have "?e \<in> set (h # hs)" by (rule next_eater_mem)
    then have mem: "?e \<in> set animals" and hungry: "eps < the (cn s ?e)"
      using Cons [symmetric] by auto
    from mem d obtain need r where need: "cn s ?e = Some need" and r: "sp ?e = Some r"
      by blast
    have gt: "eps < need" using hungry need by simp
    show ?thesis
    proof (cases "filter (\<lambda>f. f \<in> selected) (foods r) = []")
      case True
      then have "turn_r rnd eps sp selected animals s = Some (Return False s)"
        using gt by (simp add: turn_r_def hu Cons Let_def need r)
      then show ?thesis by blast
    next
      case False
      from eat_r_total [OF se e, of "filter (\<lambda>f. f \<in> selected) (foods r)" need s]
      obtain res where res: "eat_r rnd eps (filter (\<lambda>f. f \<in> selected) (foods r)) need s = Some res"
        "\<forall>x. res \<noteq> Raise x"
        "case res of Raise x \<Rightarrow> True | Return b s' \<Rightarrow> \<not> b \<and> cn s' = cn s
               | Continue s' \<Rightarrow> cn s' = cn s" by blast
      have tn: "turn_r rnd eps sp selected animals s =
          (case res of Raise x \<Rightarrow> Some (Raise x) | Return b s' \<Rightarrow> Some (Return b s')
             | Continue s' \<Rightarrow> Some (Continue (s'\<lparr>cn := (cn s')(?e \<mapsto> 0)\<rparr>)))"
        using gt False res(1) by (simp add: turn_r_def hu Cons Let_def need r)
      show ?thesis
      proof (cases res)
        case (Raise x)
        with res show ?thesis by simp
      next
        case (Return b s')
        with res(3) have "\<not> b" by simp
        with tn Return show ?thesis by simp
      next
        case (Continue s')
        with res(3) have "cn s' = cn s" by simp
        with tn Continue mem hungry show ?thesis by auto
      qed
    qed
  qed
qed

lemma turns_r_total:
  assumes se: "small_error rnd" and e: "0 < eps" and d: "set animals \<subseteq> dom sp"
  shows "set animals \<subseteq> dom (cn s) \<Longrightarrow> \<exists>b s'. turns_r rnd eps sp selected animals s = Some (Inr (b, s'))"
proof (induction "hungry_count eps animals s" arbitrary: s rule: less_induct)
  case less
  have e0: "0 \<le> eps" using e by simp
  from turn_r_total [OF se e less.prems d, of selected]
  consider (pass) "turn_r rnd eps sp selected animals s = Some (Return True s)"
    | (fail) s' where "turn_r rnd eps sp selected animals s = Some (Return False s')"
    | (again) s' eater where
        "turn_r rnd eps sp selected animals s = Some (Continue (s'\<lparr>cn := (cn s)(eater \<mapsto> 0)\<rparr>))"
        "eater \<in> set animals" "eps < the (cn s eater)"
    by blast
  then show ?case
  proof cases
    case pass
    then show ?thesis by (subst turns_r.simps) auto
  next
    case fail
    then show ?thesis by (subst turns_r.simps) auto
  next
    case again
    let ?s1 = "s'\<lparr>cn := (cn s)(eater \<mapsto> 0)\<rparr>"
    have "hungry_count eps animals ?s1 < hungry_count eps animals s"
      using turn_Continue_measure [OF e0 again(2,3)] .
    moreover have "set animals \<subseteq> dom (cn ?s1)" using less.prems by auto
    ultimately obtain b s'' where "turns_r rnd eps sp selected animals ?s1 = Some (Inr (b, s''))"
      using less.hyps by blast
    with again(1) show ?thesis by (subst turns_r.simps) simp
  qed
qed

lemma simulate_set_run_r_ok:
  assumes "set producers \<union> set animals \<subseteq> dom sp"
  shows "simulate_set_run_r rnd sp producers animals eps =
         turns_r rnd eps sp (set producers \<union> set animals) animals (start_state sp producers animals)"
proof -
  have a: "set (producers @ animals) \<subseteq> dom sp" and b: "set animals \<subseteq> dom sp"
    using assms by auto
  show ?thesis
    unfolding simulate_set_run_r_def Let_def init_pool_ok [OF a] init_pool_ok [OF b]
    by (simp add: start_state_def pool_of_def)
qed

lemma simulate_set_run_r_err:
  assumes "\<not> set producers \<union> set animals \<subseteq> dom sp"
  shows "simulate_set_run_r rnd sp producers animals eps = Some (Inl KeyError)"
proof (cases "set (producers @ animals) \<subseteq> dom sp")
  case False
  then show ?thesis
    by (simp add: simulate_set_run_r_def init_pool_err del: set_append)
next
  case True
  with assms show ?thesis by auto
qed

lemma simulate_set_r_total:
  assumes se: "small_error rnd" and e: "0 < eps"
  shows "\<exists>r. simulate_set_r rnd sp producers animals eps = Some r"
proof (cases "set producers \<union> set animals \<subseteq> dom sp")
  case True
  then have d: "set animals \<subseteq> dom sp" by simp
  from turns_r_total [OF se e d start_state_cn_dom [OF True], of "set producers \<union> set animals"]
  show ?thesis by (auto simp: simulate_set_r_def simulate_set_run_r_ok [OF True])
next
  case False
  from simulate_set_run_r_err [OF False] show ?thesis
    by (simp add: simulate_set_r_def)
qed

text \<open>
  With a negative \<open>eps\<close> no reserve is within \<open>eps\<close> of the largest one: the top
  set is empty, every micro-step returns False at \<open>k == 0\<close>, and the first turn with a
  hungry animal ends the call.
\<close>

lemma top_of_r_neg: "eps < 0 \<Longrightarrow> top_of_r rnd eps m av = []"
  by (induction av) (auto simp: top_of_r_def)

lemma micro_step_r_neg: "eps < 0 \<Longrightarrow> micro_step_r rnd eps allowed need s = Return False s"
  by (simp add: micro_step_r_def Let_def top_of_r_neg)

lemma eat_r_neg:
  assumes "eps < 0"
  shows "eat_r rnd eps allowed need s = Some (if eps < need then Return False s else Continue s)"
  by (subst eat_r.simps) (simp add: micro_step_r_neg [OF assms])

lemma turn_r_neg:
  assumes "eps < 0" "set animals \<subseteq> dom (cn s)" "set animals \<subseteq> dom sp"
  shows "(turn_r rnd eps sp selected animals s = Some (Return True s) \<and> hungry_count eps animals s = 0)
       \<or> turn_r rnd eps sp selected animals s = Some (Return False s)"
proof -
  have hu: "hungry_of eps (cn s) animals = Inr (filter (\<lambda>a. eps < the (cn s a)) animals)"
    using hungry_of_ok [OF assms(2)] .
  show ?thesis
  proof (cases "filter (\<lambda>a. eps < the (cn s a)) animals")
    case Nil
    then show ?thesis by (simp add: turn_r_def hu hungry_count_def)
  next
    case (Cons h hs)
    let ?e = "next_eater (cp s) h hs"
    have "?e \<in> set (h # hs)" by (rule next_eater_mem)
    then have mem: "?e \<in> set animals" and hungry: "eps < the (cn s ?e)"
      using Cons [symmetric] by auto
    from mem assms obtain need r where need: "cn s ?e = Some need" and r: "sp ?e = Some r"
      by blast
    have gt: "eps < need" using hungry need by simp
    have "turn_r rnd eps sp selected animals s = Some (Return False s)"
      using gt by (simp add: turn_r_def hu Cons Let_def need r eat_r_neg [OF assms(1)])
    then show ?thesis by simp
  qed
qed

lemma simulate_set_r_neg:
  assumes "eps < 0"
  shows "\<exists>r. simulate_set_r rnd sp producers animals eps = Some r"
proof (cases "set producers \<union> set animals \<subseteq> dom sp")
  case True
  let ?s = "start_state sp producers animals"
  have d2: "set animals \<subseteq> dom sp" using True by simp
  from turn_r_neg [OF assms start_state_cn_dom [OF True] d2, of rnd "set producers \<union> set animals"]
  have "\<exists>b. turns_r rnd eps sp (set producers \<union> set animals) animals ?s = Some (Inr (b, ?s))"
    by (subst turns_r.simps) auto
  then show ?thesis by (auto simp: simulate_set_r_def simulate_set_run_r_ok [OF True])
next
  case False
  from simulate_set_run_r_err [OF False] show ?thesis
    by (simp add: simulate_set_r_def)
qed

text \<open>
  The value of \<open>round_double\<close> at a given argument, from the exponent \<open>e\<close> of the
  argument and the integer \<open>n\<close> that its significand rounds to; and the roundings of
  the run on \<open>eco_crowd\<close>.
\<close>

lemma round_double_eqI:
  assumes "2 powr of_int e \<le> \<bar>x\<bar>" "\<bar>x\<bar> < 2 powr (of_int e + 1)"
    and "round_half_even (x / 2 powr (of_int e - 52)) = n"
    and "y = 2 powr (of_int e - 52) * of_int n"
  shows "round_double x = y"
proof -
  have "0 < (2::real) powr of_int e" by simp
  with assms(1) have x: "0 < \<bar>x\<bar>" by linarith
  then have "\<lfloor>log 2 \<bar>x\<bar>\<rfloor> = e"
    using assms(1,2) by (simp add: floor_log_eq_powr_iff)
  with x assms(3,4) show ?thesis by (simp add: round_double_def Let_def)
qed

lemma round_double_0: "round_double 0 = 0"
  by (simp add: round_double_def)

lemma round_double_joint_capacity:
  "round_double (10133099161583625 / 268435456) = 1266637395197953 / 33554432"
  by (rule round_double_eqI [of 25 _ 5066549580791812])
     (simp_all add: round_half_even_def Let_def powr_neg_numeral)

lemma round_double_share:
  "round_double (1266637395197953 / 100663296) = 6755399441055749 / 536870912"
  by (rule round_double_eqI [of 23 _ 6755399441055749])
     (simp_all add: round_half_even_def Let_def powr_neg_numeral)

lemma round_double_left:
  "round_double (1 / 536870912) = 1 / 536870912"
  by (rule round_double_eqI [of "- 29" _ 4503599627370496])
     (simp_all add: round_half_even_def Let_def powr_neg_numeral)

lemma round_double_need:
  "round_double (42535295865117307932920559291575828479 / 33554432) = 1267650600228229401496703205376"
  by (rule round_double_eqI [of 99 _ 9007199254740992])
     (simp_all add: round_half_even_def Let_def powr_neg_numeral)

lemma round_double_last_capacity:
  "round_double (3 / 536870912) = 3 / 536870912"
  by (rule round_double_eqI [of "- 28" _ 6755399441055744])
     (simp_all add: round_half_even_def Let_def powr_neg_numeral)

lemmas crowd_simps =
  micro_step_r_def available_of_def top_of_r_def get_or_def Let_def crowd_state_def
  start_state_def pool_of_def eco_crowd_def producer_def animal_def default_eps_def min_def
  round_double_0 round_double_joint_capacity round_double_share round_double_left
  round_double_need round_double_last_capacity

lemma crowd_step:
  "micro_step_r round_double default_eps [''F1'', ''F2'', ''F3''] (2 ^ 100) crowd_state
     = Continue (2 ^ 100,
         crowd_state\<lparr>cp := (cp crowd_state)(''F1'' \<mapsto> 1 / 2 ^ 29, ''F2'' \<mapsto> 1 / 2 ^ 29,
                                              ''F3'' \<mapsto> 1 / 2 ^ 29),
                      writes := [(''F1'', 1 / 2 ^ 29), (''F2'', 1 / 2 ^ 29), (''F3'', 1 / 2 ^ 29)]\<rparr>)"
  by (simp add: crowd_simps)

lemma crowd_run:
  "simulate_set_r round_double (map_of eco_crowd) [''F1'', ''F2'', ''F3''] [''A1''] default_eps
     = Some (Inr False)"
  by (simp add: crowd_simps simulate_set_r_def simulate_set_run_r_def turn_r_def
      next_eater_def eater_key_def turns_r.simps eat_r.simps)

text \<open>
  C6. In the arithmetic of the source the second clause of the claim does not hold: an
  iteration of the inner loop can pass every check and leave the need as it was, the
  take being lost when it is subtracted from a much larger need. What holds, for every
  rounding \<open>rnd\<close> with a relative error of at most 1/8 (\<open>round_double\<close> is one) and
  every \<open>eps\<close> other than 0 (the source's is 1e-9): \<open>simulate_set\<close> ends on every
  input, by a verdict or by the KeyError of a species that \<open>sp_map\<close> does not have, and
  the inner loop ends from every state. A micro-step with \<open>need > eps\<close> returns False,
  or leaves a need of 0, or takes at least \<open>eps / 2\<close> from the reserves of the allowed
  foods, whose sum is never negative. A turn, in a state where \<open>cn\<close> and \<open>sp_map\<close> know
  every chosen animal, returns True when no animal is hungry, or returns False, or sets
  the need of one hungry animal to 0, which leaves strictly fewer hungry animals.
\<close>

theorem C6_simulate_set_terminates_under_rounding:
  assumes se: "small_error rnd" and e: "eps \<noteq> 0"
  shows "(\<exists>r. simulate_set_r rnd sp_map producers animals eps = Some r)
   \<and> (\<exists>r. eat_r rnd eps allowed need s = Some r)
   \<and> (eps < need \<longrightarrow>
        (\<exists>s'. micro_step_r rnd eps allowed need s = Return False s')
        \<or> (\<exists>need' s'. micro_step_r rnd eps allowed need s = Continue (need', s')
              \<and> (need' = 0 \<and> need' < need
                  \<or> 0 \<le> pool_mass allowed (cp s')
                    \<and> pool_mass allowed (cp s') \<le> pool_mass allowed (cp s) - eps / 2)))
   \<and> (set animals \<subseteq> dom (cn s) \<and> set animals \<subseteq> dom sp_map \<longrightarrow>
        (turn_r rnd eps sp_map selected animals s = Some (Return True s)
           \<and> hungry_count eps animals s = 0)
        \<or> (\<exists>s'. turn_r rnd eps sp_map selected animals s = Some (Return False s'))
        \<or> (\<exists>s' eater.
              turn_r rnd eps sp_map selected animals s
                = Some (Continue (s'\<lparr>cn := (cn s)(eater \<mapsto> 0)\<rparr>))
              \<and> eater \<in> set animals \<and> eps < the (cn s eater)
              \<and> hungry_count eps animals (s'\<lparr>cn := (cn s)(eater \<mapsto> 0)\<rparr>)
                  < hungry_count eps animals s))"
proof (intro conjI impI)
  show "\<exists>r. simulate_set_r rnd sp_map producers animals eps = Some r"
  proof (cases "0 < eps")
    case True
    then show ?thesis using simulate_set_r_total [OF se] by blast
  next
    case False
    with e have "eps < 0" by simp
    then show ?thesis by (rule simulate_set_r_neg)
  qed
  show "\<exists>r. eat_r rnd eps allowed need s = Some r"
  proof (cases "0 < eps")
    case True
    then show ?thesis using eat_r_total [OF se, of eps allowed need s] by blast
  next
    case False
    with e have "eps < 0" by simp
    then show ?thesis using eat_r_neg [of eps rnd allowed need s] by simp
  qed
next
  assume gt: "eps < need"
  show "(\<exists>s'. micro_step_r rnd eps allowed need s = Return False s')
        \<or> (\<exists>need' s'. micro_step_r rnd eps allowed need s = Continue (need', s')
              \<and> (need' = 0 \<and> need' < need
                  \<or> 0 \<le> pool_mass allowed (cp s')
                    \<and> pool_mass allowed (cp s') \<le> pool_mass allowed (cp s) - eps / 2))"
  proof (cases "0 < eps")
    case False
    with e have "eps < 0" by simp
    then show ?thesis using micro_step_r_neg [of eps rnd allowed need s] by simp
  next
    case True
    with gt have "0 < need" by simp
    with micro_step_r_cases [OF se True, of allowed need s] pool_mass_nonneg
    show ?thesis by blast
  qed
next
  assume d: "set animals \<subseteq> dom (cn s) \<and> set animals \<subseteq> dom sp_map"
  then have d1: "set animals \<subseteq> dom (cn s)" and d2: "set animals \<subseteq> dom sp_map" by auto
  let ?goal = "(turn_r rnd eps sp_map selected animals s = Some (Return True s)
               \<and> hungry_count eps animals s = 0)
            \<or> (\<exists>s'. turn_r rnd eps sp_map selected animals s = Some (Return False s'))
            \<or> (\<exists>s' eater.
                  turn_r rnd eps sp_map selected animals s
                    = Some (Continue (s'\<lparr>cn := (cn s)(eater \<mapsto> 0)\<rparr>))
                  \<and> eater \<in> set animals \<and> eps < the (cn s eater)
                  \<and> hungry_count eps animals (s'\<lparr>cn := (cn s)(eater \<mapsto> 0)\<rparr>)
                      < hungry_count eps animals s)"
  show ?goal
  proof (cases "0 < eps")
    case False
    with e have "eps < 0" by simp
    from turn_r_neg [OF this d1 d2, of rnd selected] show ?goal by auto
  next
    case True
    then have e0: "0 \<le> eps" by simp
    from turn_r_total [OF se True d1 d2, of selected] show ?goal
    proof (elim disjE conjE exE)
      assume "turn_r rnd eps sp_map selected animals s = Some (Return True s)"
        and "hungry_count eps animals s = 0"
      then show ?goal by simp
    next
      fix s'
      assume "turn_r rnd eps sp_map selected animals s = Some (Return False s')"
      then show ?goal by simp
    next
      fix s' eater
      assume t: "turn_r rnd eps sp_map selected animals s = Some (Continue (s'\<lparr>cn := (cn s)(eater \<mapsto> 0)\<rparr>))"
        and m: "eater \<in> set animals" and g: "eps < the (cn s eater)"
      have "hungry_count eps animals (s'\<lparr>cn := (cn s)(eater \<mapsto> 0)\<rparr>) < hungry_count eps animals s"
        using turn_Continue_measure [OF e0 m g] .
      with t m g have "\<exists>s' eater.
                    turn_r rnd eps sp_map selected animals s
                      = Some (Continue (s'\<lparr>cn := (cn s)(eater \<mapsto> 0)\<rparr>))
                    \<and> eater \<in> set animals \<and> eps < the (cn s eater)
                    \<and> hungry_count eps animals (s'\<lparr>cn := (cn s)(eater \<mapsto> 0)\<rparr>)
                        < hungry_count eps animals s"
        by (intro exI [of _ s'] exI [of _ eater]) simp
      then show ?goal by simp
    qed
  qed
qed

text \<open>
  The run on \<open>eco_crowd\<close> with the rounding of the source: it ends with False, and its
  first micro-step, which leaves the need at \<open>2^100\<close>, takes more than \<open>eps / 2\<close> from
  the three reserves.
\<close>

theorem C6_witness:
  "small_error round_double \<and> default_eps \<noteq> 0 \<and> default_eps < 2 ^ 100
   \<and> set [''A1''] \<subseteq> dom (cn crowd_state) \<and> set [''A1''] \<subseteq> dom (map_of eco_crowd)
   \<and> simulate_set_r round_double (map_of eco_crowd) [''F1'', ''F2'', ''F3''] [''A1''] default_eps
       = Some (Inr False)
   \<and> pool_mass [''F1'', ''F2'', ''F3'']
        ((cp crowd_state)(''F1'' \<mapsto> 1 / 2 ^ 29, ''F2'' \<mapsto> 1 / 2 ^ 29, ''F3'' \<mapsto> 1 / 2 ^ 29))
       \<le> pool_mass [''F1'', ''F2'', ''F3''] (cp crowd_state) - default_eps / 2
   \<and> (\<exists>r. turn_r round_double default_eps (map_of eco_crowd) {''F1'', ''F2'', ''F3'', ''A1''}
              [''A1''] crowd_state = Some r \<and> r \<noteq> Return True crowd_state)"
proof -
  have e: "default_eps \<noteq> 0" and gt: "default_eps < 2 ^ 100"
    by (simp_all add: default_eps_def)
  have d: "set [''A1''] \<subseteq> dom (cn crowd_state) \<and> set [''A1''] \<subseteq> dom (map_of eco_crowd)"
    by (simp add: crowd_state_def start_state_def pool_of_def eco_crowd_def producer_def animal_def
        domIff)
  have h: "hungry_count default_eps [''A1''] crowd_state \<noteq> 0"
    by (simp add: hungry_count_def crowd_state_def start_state_def pool_of_def eco_crowd_def
        producer_def animal_def default_eps_def)
  note c6 = C6_simulate_set_terminates_under_rounding
      [OF small_error_round_double e, of "map_of eco_crowd" "[''F1'', ''F2'', ''F3'']" "[''A1'']"
         "[''F1'', ''F2'', ''F3'']" "2 ^ 100" crowd_state "{''F1'', ''F2'', ''F3'', ''A1''}"]
  from c6 gt
  have "(\<exists>s'. micro_step_r round_double default_eps [''F1'', ''F2'', ''F3''] (2 ^ 100) crowd_state
              = Return False s')
        \<or> (\<exists>need' s'. micro_step_r round_double default_eps [''F1'', ''F2'', ''F3''] (2 ^ 100) crowd_state
               = Continue (need', s')
              \<and> (need' = 0 \<and> need' < 2 ^ 100
                  \<or> 0 \<le> pool_mass [''F1'', ''F2'', ''F3''] (cp s')
                    \<and> pool_mass [''F1'', ''F2'', ''F3''] (cp s')
                       \<le> pool_mass [''F1'', ''F2'', ''F3''] (cp crowd_state) - default_eps / 2))"
    by blast
  then have drop: "pool_mass [''F1'', ''F2'', ''F3'']
        ((cp crowd_state)(''F1'' \<mapsto> 1 / 2 ^ 29, ''F2'' \<mapsto> 1 / 2 ^ 29, ''F3'' \<mapsto> 1 / 2 ^ 29))
       \<le> pool_mass [''F1'', ''F2'', ''F3''] (cp crowd_state) - default_eps / 2"
    unfolding crowd_step by simp
  from c6 d h
  have "(\<exists>s'. turn_r round_double default_eps (map_of eco_crowd) {''F1'', ''F2'', ''F3'', ''A1''}
              [''A1''] crowd_state = Some (Return False s'))
        \<or> (\<exists>s' eater. turn_r round_double default_eps (map_of eco_crowd) {''F1'', ''F2'', ''F3'', ''A1''}
              [''A1''] crowd_state = Some (Continue (s'\<lparr>cn := (cn crowd_state)(eater \<mapsto> 0)\<rparr>)))"
    by blast
  then have turn: "\<exists>r. turn_r round_double default_eps (map_of eco_crowd) {''F1'', ''F2'', ''F3'', ''A1''}
              [''A1''] crowd_state = Some r \<and> r \<noteq> Return True crowd_state"
    by auto
  from small_error_round_double e gt d crowd_run drop turn show ?thesis by simp
qed

text \<open>
  The first iteration of the inner loop of the run on \<open>eco_crowd\<close>: the need
  \<open>2^100\<close> exceeds \<open>eps\<close>, the iteration does not return, and the need after it is
  \<open>2^100\<close> again.
\<close>

theorem C6_counterexample:
  "default_eps < 2 ^ 100
   \<and> micro_step_r round_double default_eps [''F1'', ''F2'', ''F3''] (2 ^ 100) crowd_state
     = Continue (2 ^ 100,
         crowd_state\<lparr>cp := (cp crowd_state)(''F1'' \<mapsto> 1 / 2 ^ 29, ''F2'' \<mapsto> 1 / 2 ^ 29,
                                              ''F3'' \<mapsto> 1 / 2 ^ 29),
                      writes := [(''F1'', 1 / 2 ^ 29), (''F2'', 1 / 2 ^ 29), (''F3'', 1 / 2 ^ 29)]\<rparr>)
   \<and> \<not> (2 ^ 100 :: real) < 2 ^ 100"
  using crowd_step by (simp add: default_eps_def)

subsection \<open>The cap at its boundary\<close>

text \<open>
  Outside the configuration the enumerator is meant for: with a cap of 0 the test
  \<open>len(results) >= cap_results\<close> is made only after a row has been appended, so the
  first passing set is still evaluated and returned.
\<close>

lemma cap_zero_returns_first_passing_row:
  "find_run (eco_one_eater 50) 1 (Some 0) =
     Some ([([''P1'', ''P2'', ''P3''], [''A01''])],
           Inr [make_row [''P1'', ''P2'', ''P3''] [''A01'']])"
proof -
  have "simulate_set (map_of (eco_one_eater 50)) [''P1'', ''P2'', ''P3''] [''A01''] default_eps
          = Some (Inr True)"
    by (simp add: run_simps eco_one_eater_def turns.simps eat.simps)
  then show ?thesis
    by (simp add: find_run_def eco_one_eater_facts Let_def numeral_eq_Suc)
qed

end
